theory Spec2Isabelle
  imports Complex_Main "HOL-Library.Sublist" "HOL-Library.Multiset"
begin

section \<open>Persona-driven PDF extractor: the \<open>process_documents\<close> pipeline\<close>

text \<open>
  A shallow embedding of \<^verbatim>\<open>utils.py\<close> (lines 53 to 119 of \<^verbatim>\<open>src/abodeRound1.py\<close>):
  \<^verbatim>\<open>get_sections_from_pdf\<close>, \<^verbatim>\<open>score_relevance\<close> and \<^verbatim>\<open>process_documents\<close>.

  Conventions of the model:
  \<^item> A Python \<^verbatim>\<open>str\<close> is a sequence of Unicode code points and \<^verbatim>\<open>len\<close> counts code
    points, so a string is a list of code points (\<open>nat list\<close>); \<open>ustr\<close> turns an
    Isabelle string literal into one.
  \<^item> PyMuPDF (\<^verbatim>\<open>fitz\<close>) and sentence-transformers (\<^verbatim>\<open>model.encode\<close>,
    \<^verbatim>\<open>util.pytorch_cos_sim\<close>) are libraries outside the repository: they are the
    fields of a \<open>backend\<close> record, each of which may raise (\<open>None\<close>).
  \<^item> An exception is a value \<open>Inl e\<close> of the result type \<open>error + 'a\<close>.
  \<^item> A Python \<^verbatim>\<open>float\<close> score is idealised as a real number (no NaN, no infinities,
    no representation error); \<^verbatim>\<open>round(x, 4)\<close> is rounding to the nearest multiple of
    \<open>1/10000\<close> with ties going to the even multiple.
\<close>

subsection \<open>Strings\<close>

type_synonym ustring = "nat list"

definition ustr :: "string \<Rightarrow> ustring" where
  "ustr s = map of_char s"

text \<open>
  The code points that \<^verbatim>\<open>str.strip()\<close> without argument removes
  (CPython's \<^verbatim>\<open>Py_UNICODE_ISSPACE\<close>).
\<close>

definition is_space :: "nat \<Rightarrow> bool" where
  "is_space c \<longleftrightarrow>
     (9 \<le> c \<and> c \<le> 13) \<or> (28 \<le> c \<and> c \<le> 32) \<or> c = 133 \<or> c = 160 \<or> c = 5760 \<or>
     (8192 \<le> c \<and> c \<le> 8202) \<or> c = 8232 \<or> c = 8233 \<or> c = 8239 \<or> c = 8287 \<or> c = 12288"

text \<open>\<^verbatim>\<open>s.strip()\<close>: leading whitespace is dropped, then trailing whitespace.\<close>

definition strip :: "ustring \<Rightarrow> ustring" where
  "strip s = rev (dropWhile is_space (rev (dropWhile is_space s)))"

text \<open>
  \<^verbatim>\<open>os.path.basename(p)\<close> of \<^verbatim>\<open>posixpath\<close> (the Dockerfile runs on Linux):
  \<^verbatim>\<open>i = p.rfind('/') + 1; return p[i:]\<close>. Code point 47 is the slash.
\<close>

definition basename :: "ustring \<Rightarrow> ustring" where
  "basename p = rev (takeWhile (\<lambda>c. c \<noteq> 47) (rev p))"

text \<open>
  \<^verbatim>\<open>s.split(sep)\<close> for a separator of one code point: the list of the segments
  between occurrences of \<open>sep\<close>; it is never empty.
\<close>

fun py_split :: "nat \<Rightarrow> ustring \<Rightarrow> ustring list" where
  "py_split sep [] = [[]]"
| "py_split sep (c # cs) =
     (if c = sep then [] # py_split sep cs
      else (case py_split sep cs of
              [] \<Rightarrow> [[c]]
            | w # ws \<Rightarrow> (c # w) # ws))"

subsection \<open>Errors, records and the external libraries\<close>

text \<open>
  \<open>DocumentReadError\<close> stands for whatever \<^verbatim>\<open>fitz\<close> raises on the given path and
  \<open>EmbeddingError\<close> for whatever sentence-transformers raises; \<open>IndexError\<close> and
  \<open>KeyError\<close> are Python's own. \<open>EmptyInputError\<close> is the third error of the
  specification's taxonomy: no line of the source raises it.
\<close>

datatype error =
    DocumentReadError ustring
  | EmbeddingError
  | EmptyInputError
  | IndexError
  | KeyError

text \<open>
  The dictionary built in \<^verbatim>\<open>get_sections_from_pdf\<close> (keys \<^verbatim>\<open>doc\<close>, \<^verbatim>\<open>page\<close>,
  \<^verbatim>\<open>text\<close>), to which \<^verbatim>\<open>score_relevance\<close> adds the key \<^verbatim>\<open>score\<close>:
  \<open>c_score\<close> is \<open>None\<close> while the key is absent.
\<close>

record candidate =
  c_doc :: ustring
  c_page :: nat
  c_text :: ustring
  c_score :: "real option"

record section_entry =
  es_document :: ustring
  es_page :: nat
  section_title :: ustring
  importance_rank :: nat
  es_score :: real

record subsection_entry =
  sa_document :: ustring
  sa_page :: nat
  refined_text :: ustring

record run_metadata =
  documents :: "ustring list"
  persona :: ustring
  job :: ustring
  timestamp :: ustring

record report =
  metadata :: run_metadata
  extracted_sections :: "section_entry list"
  subsection_analysis :: "subsection_entry list"

text \<open>
  The libraries the pipeline calls.
  \<^item> \<open>open_blocks path\<close>: \<^verbatim>\<open>fitz.open(path)\<close> followed, for every page in order, by
    \<^verbatim>\<open>page.get_text("blocks")\<close>, keeping of every block its text \<^verbatim>\<open>b[4]\<close>.
  \<^item> \<open>encode_texts\<close>: \<^verbatim>\<open>model.encode(list, convert_to_tensor=True)\<close>.
  \<^item> \<open>encode_query\<close>: \<^verbatim>\<open>model.encode(string, convert_to_tensor=True)\<close>.
  \<^item> \<open>cos_sim_row q t\<close>: \<^verbatim>\<open>util.pytorch_cos_sim(q, t)[0]\<close>, the scores in order.
\<close>

record ('t, 'q) backend =
  open_blocks :: "ustring \<Rightarrow> ustring list list option"
  encode_texts :: "ustring list \<Rightarrow> 't option"
  encode_query :: "ustring \<Rightarrow> 'q option"
  cos_sim_row :: "'q \<Rightarrow> 't \<Rightarrow> real list option"

text \<open>The calls made to the embedding model, in the order they are made.\<close>

datatype encode_call = EncodeTexts "ustring list" | EncodeQuery ustring

subsection \<open>\<^verbatim>\<open>get_sections_from_pdf\<close>\<close>

text \<open>The inner loop over the blocks of page number \<open>i\<close> (0-based).\<close>

fun blocks_loop :: "ustring \<Rightarrow> nat \<Rightarrow> candidate list \<Rightarrow> ustring list \<Rightarrow> candidate list" where
  "blocks_loop path i sections [] = sections"
| "blocks_loop path i sections (b # bs) =
     (let text = strip b in
      if length text \<ge> 30
      then blocks_loop path i
             (sections @ [\<lparr>c_doc = basename path, c_page = i + 1, c_text = text, c_score = None\<rparr>]) bs
      else blocks_loop path i sections bs)"

text \<open>The outer loop over \<^verbatim>\<open>enumerate(doc)\<close>.\<close>

fun pages_loop :: "ustring \<Rightarrow> candidate list \<Rightarrow> (nat \<times> ustring list) list \<Rightarrow> candidate list" where
  "pages_loop path sections [] = sections"
| "pages_loop path sections ((i, blocks) # rest) =
     pages_loop path (blocks_loop path i sections blocks) rest"

definition get_sections_from_pdf :: "('t, 'q) backend \<Rightarrow> ustring \<Rightarrow> error + candidate list" where
  "get_sections_from_pdf be path =
     (case open_blocks be path of
        None \<Rightarrow> Inl (DocumentReadError path)
      | Some doc \<Rightarrow> Inr (pages_loop path [] (enumerate 0 doc)))"

subsection \<open>\<^verbatim>\<open>score_relevance\<close>\<close>

text \<open>
  \<^verbatim>\<open>for i, s in enumerate(scores): texts[i]["score"] = float(s)\<close>.
  \<^verbatim>\<open>texts[i]\<close> raises IndexError when there are more scores than texts.
\<close>

fun assign_scores :: "candidate list \<Rightarrow> (nat \<times> real) list \<Rightarrow> error + candidate list" where
  "assign_scores texts [] = Inr texts"
| "assign_scores texts ((i, s) # rest) =
     (if i < length texts
      then assign_scores (texts[i := (texts ! i)\<lparr>c_score := Some s\<rparr>]) rest
      else Inl IndexError)"

text \<open>
  \<^verbatim>\<open>sorted(xs, key=f, reverse=True)\<close>: CPython reverses the list, sorts it stably
  in ascending order of the keys, and reverses the result.
\<close>

definition py_sorted_reverse :: "('a \<Rightarrow> real) \<Rightarrow> 'a list \<Rightarrow> 'a list" where
  "py_sorted_reverse f xs = rev (sort_key f (rev xs))"

text \<open>
  \<^verbatim>\<open>sorted(texts, key=lambda x: x["score"], reverse=True)\<close>: the key function is
  applied to every element, and raises KeyError on a dictionary without score.
\<close>

definition score_key :: "candidate \<Rightarrow> real" where
  "score_key x = (case c_score x of None \<Rightarrow> 0 | Some s \<Rightarrow> s)"

definition sorted_by_score :: "candidate list \<Rightarrow> error + candidate list" where
  "sorted_by_score texts =
     (if None \<in> set (map c_score texts) then Inl KeyError
      else Inr (py_sorted_reverse score_key texts))"

text \<open>
  The function returns the calls it made to \<^verbatim>\<open>model.encode\<close> together with its
  result (or the exception that ended it).
\<close>

definition score_relevance ::
  "('t, 'q) backend \<Rightarrow> candidate list \<Rightarrow> ustring \<Rightarrow> encode_call list \<times> (error + candidate list)" where
  "score_relevance be texts query =
     (case encode_texts be (map c_text texts) of
        None \<Rightarrow> ([EncodeTexts (map c_text texts)], Inl EmbeddingError)
      | Some text_embeddings \<Rightarrow>
          (case encode_query be query of
             None \<Rightarrow> ([EncodeTexts (map c_text texts), EncodeQuery query], Inl EmbeddingError)
           | Some query_embedding \<Rightarrow>
               ([EncodeTexts (map c_text texts), EncodeQuery query],
                (case cos_sim_row be query_embedding text_embeddings of
                   None \<Rightarrow> Inl EmbeddingError
                 | Some scores \<Rightarrow>
                     (case assign_scores texts (enumerate 0 scores) of
                        Inl e \<Rightarrow> Inl e
                      | Inr texts' \<Rightarrow> sorted_by_score texts')))))"

subsection \<open>\<^verbatim>\<open>process_documents\<close>\<close>

text \<open>The loop over \<^verbatim>\<open>pdf_paths\<close> that extends \<^verbatim>\<open>all_sections\<close>.\<close>

fun all_sections_loop ::
  "('t, 'q) backend \<Rightarrow> candidate list \<Rightarrow> ustring list \<Rightarrow> error + candidate list" where
  "all_sections_loop be all_sections [] = Inr all_sections"
| "all_sections_loop be all_sections (path # rest) =
     (case get_sections_from_pdf be path of
        Inl e \<Rightarrow> Inl e
      | Inr sections \<Rightarrow> all_sections_loop be (all_sections @ sections) rest)"

text \<open>\<^verbatim>\<open>f"{persona} needs to {job}"\<close>\<close>

definition full_query :: "ustring \<Rightarrow> ustring \<Rightarrow> ustring" where
  "full_query p j = p @ ustr '' needs to '' @ j"

text \<open>
  The value of the local variable \<^verbatim>\<open>ranked_sections\<close>:
  \<^verbatim>\<open>score_relevance(all_sections, full_query)[:10]\<close>.
\<close>

definition ranked_sections ::
  "('t, 'q) backend \<Rightarrow> ustring list \<Rightarrow> ustring \<Rightarrow> ustring \<Rightarrow> error + candidate list" where
  "ranked_sections be pdf_paths p j =
     (case all_sections_loop be [] pdf_paths of
        Inl e \<Rightarrow> Inl e
      | Inr all_sections \<Rightarrow>
          (case snd (score_relevance be all_sections (full_query p j)) of
             Inl e \<Rightarrow> Inl e
           | Inr sorted_sections \<Rightarrow> Inr (take 10 sorted_sections)))"

text \<open>
  \<^verbatim>\<open>round(x, 4)\<close> on the reals: the nearest multiple of \<open>1/10000\<close>, a tie going to
  the even one.
\<close>

definition round_half_even :: "real \<Rightarrow> int" where
  "round_half_even y =
     (let f = \<lfloor>y\<rfloor>; d = y - of_int f in
      if d < 1/2 then f
      else if 1/2 < d then f + 1
      else if even f then f else f + 1)"

definition py_round4 :: "real \<Rightarrow> real" where
  "py_round4 x = of_int (round_half_even (x * 10000)) / 10000"

text \<open>\<^verbatim>\<open>xs[0]\<close>\<close>

definition index0 :: "'a list \<Rightarrow> error + 'a" where
  "index0 xs = (case xs of [] \<Rightarrow> Inl IndexError | x # _ \<Rightarrow> Inr x)"

text \<open>One element of the comprehension that builds \<^verbatim>\<open>extracted_sections\<close>.\<close>

definition extracted_entry :: "nat \<Rightarrow> candidate \<Rightarrow> error + section_entry" where
  "extracted_entry i s =
     (case index0 (py_split 10 (c_text s)) of
        Inl e \<Rightarrow> Inl e
      | Inr first_line \<Rightarrow>
          (case c_score s of
             None \<Rightarrow> Inl KeyError
           | Some x \<Rightarrow>
               Inr \<lparr>es_document = c_doc s, es_page = c_page s,
                    section_title = take 50 first_line,
                    importance_rank = i + 1,
                    es_score = py_round4 x\<rparr>))"

text \<open>One element of the comprehension that builds \<^verbatim>\<open>subsection_analysis\<close>.\<close>

definition subsection_of :: "candidate \<Rightarrow> subsection_entry" where
  "subsection_of s =
     \<lparr>sa_document = c_doc s, sa_page = c_page s, refined_text = take 300 (c_text s)\<rparr>"

text \<open>A list comprehension whose elements may raise: the first exception ends it.\<close>

fun collect :: "(error + 'a) list \<Rightarrow> error + 'a list" where
  "collect [] = Inr []"
| "collect (x # xs) =
     (case x of
        Inl e \<Rightarrow> Inl e
      | Inr v \<Rightarrow> (case collect xs of Inl e \<Rightarrow> Inl e | Inr vs \<Rightarrow> Inr (v # vs)))"

definition process_documents ::
  "('t, 'q) backend \<Rightarrow> ustring list \<Rightarrow> ustring \<Rightarrow> ustring \<Rightarrow> ustring \<Rightarrow> error + report" where
  "process_documents be pdf_paths p j ts =
     (case ranked_sections be pdf_paths p j of
        Inl e \<Rightarrow> Inl e
      | Inr ranked \<Rightarrow>
          (case collect (map (\<lambda>(i, s). extracted_entry i s) (enumerate 0 ranked)) of
             Inl e \<Rightarrow> Inl e
           | Inr es \<Rightarrow>
               Inr \<lparr>metadata = \<lparr>documents = map basename pdf_paths, persona = p,
                                 job = j, timestamp = ts\<rparr>,
                    extracted_sections = es,
                    subsection_analysis = map subsection_of ranked\<rparr>))"

subsection \<open>Notions of the specification\<close>

text \<open>
  The qualifying blocks of a document are those whose trimmed text has at least 30
  code points; \<open>total_qualifying\<close> counts them over all input documents.
\<close>

definition qualifying_blocks :: "('t, 'q) backend \<Rightarrow> ustring \<Rightarrow> ustring list" where
  "qualifying_blocks be path =
     (case open_blocks be path of
        None \<Rightarrow> []
      | Some doc \<Rightarrow> filter (\<lambda>b. 30 \<le> length (strip b)) (concat doc))"

definition total_qualifying :: "('t, 'q) backend \<Rightarrow> ustring list \<Rightarrow> nat" where
  "total_qualifying be paths = sum_list (map (\<lambda>p. length (qualifying_blocks be p)) paths)"

subsection \<open>Closed forms used in the proofs\<close>

text \<open>The candidates of one enumerated page, and of one document.\<close>

definition page_candidates :: "ustring \<Rightarrow> nat \<times> ustring list \<Rightarrow> candidate list" where
  "page_candidates path ib =
     map (\<lambda>t. \<lparr>c_doc = basename path, c_page = fst ib + 1, c_text = t, c_score = None\<rparr>)
       (filter (\<lambda>t. 30 \<le> length t) (map strip (snd ib)))"

definition doc_candidates :: "('t, 'q) backend \<Rightarrow> ustring \<Rightarrow> candidate list" where
  "doc_candidates be path =
     (case open_blocks be path of
        None \<Rightarrow> []
      | Some doc \<Rightarrow> concat (map (page_candidates path) (enumerate 0 doc)))"

text \<open>The list \<^verbatim>\<open>texts\<close> after the loop that stores the scores.\<close>

definition attach :: "candidate \<Rightarrow> real \<Rightarrow> candidate" where
  "attach c s = c\<lparr>c_score := Some s\<rparr>"

definition with_scores :: "candidate list \<Rightarrow> real list \<Rightarrow> candidate list" where
  "with_scores texts scores =
     map2 attach (take (length scores) texts) scores @ drop (length scores) texts"

text \<open>The entry of \<^verbatim>\<open>extracted_sections\<close> for a candidate that has a score.\<close>

definition entry_of :: "nat \<Rightarrow> candidate \<Rightarrow> section_entry" where
  "entry_of i s =
     \<lparr>es_document = c_doc s, es_page = c_page s,
      section_title = take 50 (takeWhile (\<lambda>c. c \<noteq> 10) (c_text s)),
      importance_rank = i + 1,
      es_score = py_round4 (score_key s)\<rparr>"

subsection \<open>Concrete runs\<close>

text \<open>
  Four small documents and a stand-in for the embedding model whose similarity
  depends on the first code point of a text only. \<^verbatim>\<open>b.pdf\<close> and \<^verbatim>\<open>d.pdf\<close> have no
  block of 30 code points; two blocks of \<^verbatim>\<open>a.pdf\<close> get the same score.
\<close>

definition text_veg :: ustring where
  "text_veg = ustr ''Vegetarian menu'' @ [10] @ ustr ''beans and lentils every day''"

definition text_beans :: ustring where
  "text_beans = ustr ''Beans, nuts and seeds for protein''"

definition text_calcium :: ustring where
  "text_calcium = ustr ''Calcium and iron in leafy greens''"

definition text_iron :: ustring where
  "text_iron = ustr ''Iron absorption and vitamin C pairs''"

definition demo_open :: "ustring \<Rightarrow> ustring list list option" where
  "demo_open path =
     (if path = ustr ''uploads/a.pdf'' then
        Some [[ustr ''  '' @ text_veg @ ustr ''  '', ustr ''Page 1''], [text_beans]]
      else if path = ustr ''uploads/b.pdf'' then
        Some [[ustr ''short one'']]
      else if path = ustr ''uploads/c.pdf'' then
        Some [[text_calcium], [], [ustr ''   '', text_iron @ [10]]]
      else if path = ustr ''uploads/d.pdf'' then
        Some [[], [ustr ''   '' @ [10]]]
      else None)"

definition demo_score :: "ustring \<Rightarrow> real" where
  "demo_score t = (case t of [] \<Rightarrow> 0 | c # _ \<Rightarrow> real (c mod 4) / 32)"

definition demo_backend :: "(ustring list, ustring) backend" where
  "demo_backend =
     \<lparr>open_blocks = demo_open,
      encode_texts = Some,
      encode_query = Some,
      cos_sim_row = (\<lambda>q ts. Some (map demo_score ts))\<rparr>"

definition demo_paths :: "ustring list" where
  "demo_paths = [ustr ''uploads/a.pdf'', ustr ''uploads/b.pdf'', ustr ''uploads/c.pdf'']"

definition demo_persona :: ustring where
  "demo_persona = ustr ''a nutritionist''"

definition demo_job :: ustring where
  "demo_job = ustr ''plan a vegetarian menu''"

definition demo_timestamp :: ustring where
  "demo_timestamp = ustr ''2025-07-28 10:00:00''"

definition demo_query :: ustring where
  "demo_query = full_query demo_persona demo_job"

definition demo_pool :: "candidate list" where
  "demo_pool =
     [\<lparr>c_doc = ustr ''a.pdf'', c_page = 1, c_text = text_veg, c_score = None\<rparr>,
      \<lparr>c_doc = ustr ''a.pdf'', c_page = 2, c_text = text_beans, c_score = None\<rparr>,
      \<lparr>c_doc = ustr ''c.pdf'', c_page = 1, c_text = text_calcium, c_score = None\<rparr>,
      \<lparr>c_doc = ustr ''c.pdf'', c_page = 3, c_text = text_iron, c_score = None\<rparr>]"

definition demo_ranked :: "candidate list" where
  "demo_ranked =
     [\<lparr>c_doc = ustr ''c.pdf'', c_page = 1, c_text = text_calcium, c_score = Some (3 / 32)\<rparr>,
      \<lparr>c_doc = ustr ''a.pdf'', c_page = 1, c_text = text_veg, c_score = Some (2 / 32)\<rparr>,
      \<lparr>c_doc = ustr ''a.pdf'', c_page = 2, c_text = text_beans, c_score = Some (2 / 32)\<rparr>,
      \<lparr>c_doc = ustr ''c.pdf'', c_page = 3, c_text = text_iron, c_score = Some (1 / 32)\<rparr>]"

definition demo_metadata :: "ustring list \<Rightarrow> run_metadata" where
  "demo_metadata names =
     \<lparr>documents = names, persona = demo_persona, job = demo_job, timestamp = demo_timestamp\<rparr>"

definition demo_report :: report where
  "demo_report =
     \<lparr>metadata = demo_metadata [ustr ''a.pdf'', ustr ''b.pdf'', ustr ''c.pdf''],
      extracted_sections =
        [\<lparr>es_document = ustr ''c.pdf'', es_page = 1, section_title = text_calcium,
          importance_rank = 1, es_score = 938 / 10000\<rparr>,
         \<lparr>es_document = ustr ''a.pdf'', es_page = 1, section_title = ustr ''Vegetarian menu'',
          importance_rank = 2, es_score = 625 / 10000\<rparr>,
         \<lparr>es_document = ustr ''a.pdf'', es_page = 2, section_title = text_beans,
          importance_rank = 3, es_score = 625 / 10000\<rparr>,
         \<lparr>es_document = ustr ''c.pdf'', es_page = 3, section_title = text_iron,
          importance_rank = 4, es_score = 312 / 10000\<rparr>],
      subsection_analysis =
        [\<lparr>sa_document = ustr ''c.pdf'', sa_page = 1, refined_text = text_calcium\<rparr>,
         \<lparr>sa_document = ustr ''a.pdf'', sa_page = 1, refined_text = text_veg\<rparr>,
         \<lparr>sa_document = ustr ''a.pdf'', sa_page = 2, refined_text = text_beans\<rparr>,
         \<lparr>sa_document = ustr ''c.pdf'', sa_page = 3, refined_text = text_iron\<rparr>]\<rparr>"

text \<open>A run on the two documents that have no qualifying block.\<close>

definition empty_paths :: "ustring list" where
  "empty_paths = [ustr ''uploads/b.pdf'', ustr ''uploads/d.pdf'']"

text \<open>
  The same stand-in, but \<^verbatim>\<open>model.encode\<close> raises on the empty list, as the pinned
  sentence-transformers 2.2.2 does with \<^verbatim>\<open>convert_to_tensor=True\<close>
  (\<^verbatim>\<open>torch.stack\<close> of no tensor).
\<close>

definition strict_backend :: "(ustring list, ustring) backend" where
  "strict_backend = demo_backend\<lparr>encode_texts := (\<lambda>ts. if ts = [] then None else Some ts)\<rparr>"

text \<open>
  A run on one document with twelve qualifying blocks on one page, which differ in
  their first code point.
\<close>

definition many_text :: "nat \<Rightarrow> ustring" where
  "many_text c = c # ustr ''-block of thirty code points.''"

definition many_open :: "ustring \<Rightarrow> ustring list list option" where
  "many_open path =
     (if path = ustr ''uploads/e.pdf''
      then Some [map many_text [65, 66, 67, 68, 69, 70, 71, 72, 73, 74, 75, 76]]
      else None)"

definition many_backend :: "(ustring list, ustring) backend" where
  "many_backend = demo_backend\<lparr>open_blocks := many_open\<rparr>"

definition many_paths :: "ustring list" where
  "many_paths = [ustr ''uploads/e.pdf'']"

definition many_candidate :: "nat \<Rightarrow> real option \<Rightarrow> candidate" where
  "many_candidate c s = \<lparr>c_doc = ustr ''e.pdf'', c_page = 1, c_text = many_text c, c_score = s\<rparr>"

definition many_ranked :: "candidate list" where
  "many_ranked =
     [many_candidate 67 (Some (3 / 32)), many_candidate 71 (Some (3 / 32)),
      many_candidate 75 (Some (3 / 32)), many_candidate 66 (Some (2 / 32)),
      many_candidate 70 (Some (2 / 32)), many_candidate 74 (Some (2 / 32)),
      many_candidate 65 (Some (1 / 32)), many_candidate 69 (Some (1 / 32)),
      many_candidate 73 (Some (1 / 32)), many_candidate 68 (Some 0)]"

definition many_entry :: "nat \<Rightarrow> nat \<Rightarrow> real \<Rightarrow> section_entry" where
  "many_entry c k s =
     \<lparr>es_document = ustr ''e.pdf'', es_page = 1, section_title = many_text c,
      importance_rank = k, es_score = s\<rparr>"

definition many_subsection :: "nat \<Rightarrow> subsection_entry" where
  "many_subsection c = \<lparr>sa_document = ustr ''e.pdf'', sa_page = 1, refined_text = many_text c\<rparr>"

definition many_report :: report where
  "many_report =
     \<lparr>metadata = demo_metadata [ustr ''e.pdf''],
      extracted_sections =
        [many_entry 67 1 (938 / 10000), many_entry 71 2 (938 / 10000),
         many_entry 75 3 (938 / 10000), many_entry 66 4 (625 / 10000),
         many_entry 70 5 (625 / 10000), many_entry 74 6 (625 / 10000),
         many_entry 65 7 (312 / 10000), many_entry 69 8 (312 / 10000),
         many_entry 73 9 (312 / 10000), many_entry 68 10 0],
      subsection_analysis = map many_subsection [67, 71, 75, 66, 70, 74, 65, 69, 73, 68]\<rparr>"

section \<open>Properties\<close>

subsection \<open>The loops in closed form\<close>

lemma blocks_loop_eq:
  "blocks_loop path i acc bs =
     acc @ map (\<lambda>t. \<lparr>c_doc = basename path, c_page = i + 1, c_text = t, c_score = None\<rparr>)
             (filter (\<lambda>t. 30 \<le> length t) (map strip bs))"
  by (induction bs arbitrary: acc) (simp_all add: Let_def)

lemma pages_loop_eq:
  "pages_loop path acc ps = acc @ concat (map (page_candidates path) ps)"
  by (induction ps arbitrary: acc) (auto simp: blocks_loop_eq page_candidates_def)

lemma index0_py_split: "index0 (py_split sep s) = Inr (takeWhile (\<lambda>c. c \<noteq> sep) s)"
  by (induction s) (auto simp: index0_def split: list.splits)

lemma py_split_ne: "py_split sep s \<noteq> []"
  by (induction s) (auto split: list.splits)

lemma assign_scores_enum:
  "assign_scores texts (enumerate k scores) = Inr out \<longleftrightarrow>
     (scores = [] \<or> k + length scores \<le> length texts) \<and>
     out = take k texts @ map2 attach (take (length scores) (drop k texts)) scores
             @ drop (k + length scores) texts"
proof (induction scores arbitrary: texts k)
  case Nil
  then show ?case by auto
next
  case (Cons s rest)
  show ?case
  proof (cases "k < length texts")
    case False
    then show ?thesis by simp
  next
    case True
    let ?t = "texts[k := (texts ! k)\<lparr>c_score := Some s\<rparr>]"
    have a: "take (Suc k) ?t = take k texts @ [attach (texts ! k) s]"
      using True by (simp add: take_Suc_conv_app_nth attach_def)
    have b: "drop (Suc k) ?t = drop (Suc k) texts" by simp
    have c: "drop k texts = texts ! k # drop (Suc k) texts"
      using True by (simp add: Cons_nth_drop_Suc)
    have d: "drop (Suc k + length rest) ?t = drop (Suc k + length rest) texts" by simp
    have "assign_scores texts (enumerate k (s # rest)) = assign_scores ?t (enumerate (Suc k) rest)"
      using True by simp
    also have "\<dots> = Inr out \<longleftrightarrow>
       (rest = [] \<or> Suc k + length rest \<le> length ?t) \<and>
       out = take (Suc k) ?t @ map2 attach (take (length rest) (drop (Suc k) ?t)) rest
             @ drop (Suc k + length rest) ?t"
      by (rule Cons.IH)
    finally show ?thesis
      using True unfolding a b d by (auto simp: c)
  qed
qed

lemma assign_scores_0:
  "assign_scores texts (enumerate 0 scores) = Inr out \<longleftrightarrow>
     length scores \<le> length texts \<and>
     out = map2 attach (take (length scores) texts) scores @ drop (length scores) texts"
  using assign_scores_enum [of texts 0 scores out] by auto

lemma length_with_scores:
  "length scores \<le> length texts \<Longrightarrow> length (with_scores texts scores) = length texts"
  by (simp add: with_scores_def)

lemma map2_attach_proj:
  "length xs = length ss \<Longrightarrow> map c_text (map2 attach xs ss) = map c_text xs"
  "length xs = length ss \<Longrightarrow> map c_doc (map2 attach xs ss) = map c_doc xs"
  "length xs = length ss \<Longrightarrow> map c_page (map2 attach xs ss) = map c_page xs"
  by (induction xs ss rule: list_induct2) (simp_all add: attach_def)

lemma with_scores_proj:
  assumes "length scores \<le> length texts"
  shows "map c_text (with_scores texts scores) = map c_text texts"
    and "map c_doc (with_scores texts scores) = map c_doc texts"
    and "map c_page (with_scores texts scores) = map c_page texts"
proof -
  have l: "length (take (length scores) texts) = length scores" using assms by simp
  show "map c_text (with_scores texts scores) = map c_text texts"
    unfolding with_scores_def map_append map2_attach_proj(1)[OF l]
    by (simp flip: map_append)
  show "map c_doc (with_scores texts scores) = map c_doc texts"
    unfolding with_scores_def map_append map2_attach_proj(2)[OF l]
    by (simp flip: map_append)
  show "map c_page (with_scores texts scores) = map c_page texts"
    unfolding with_scores_def map_append map2_attach_proj(3)[OF l]
    by (simp flip: map_append)
qed

lemma with_scores_all_scored:
  assumes "None \<notin> set (map c_score (with_scores texts scores))"
    and "\<And>c. c \<in> set texts \<Longrightarrow> c_score c = None"
  shows "length texts \<le> length scores"
proof (rule ccontr)
  assume "\<not> length texts \<le> length scores"
  then have "drop (length scores) texts \<noteq> []" by simp
  then obtain c where c: "c \<in> set (drop (length scores) texts)"
    by (meson last_in_set)
  then have "c \<in> set texts" by (rule in_set_dropD)
  then have "c_score c = None" by (rule assms(2))
  moreover have "c \<in> set (with_scores texts scores)" using c by (simp add: with_scores_def)
  ultimately show False using assms(1) by force
qed

lemma sorted_by_score_Inr:
  "sorted_by_score xs = Inr out \<longleftrightarrow>
     None \<notin> set (map c_score xs) \<and> out = py_sorted_reverse score_key xs"
  by (auto simp: sorted_by_score_def)

lemma score_relevance_Inr:
  assumes "snd (score_relevance be texts query) = Inr out"
  shows "\<exists>te qe scores.
           encode_texts be (map c_text texts) = Some te \<and>
           encode_query be query = Some qe \<and>
           cos_sim_row be qe te = Some scores \<and>
           length scores \<le> length texts \<and>
           None \<notin> set (map c_score (with_scores texts scores)) \<and>
           out = py_sorted_reverse score_key (with_scores texts scores)"
  using assms
  by (auto simp: score_relevance_def assign_scores_0 with_scores_def sorted_by_score_Inr
           split: option.splits sum.splits)

lemma py_sorted_reverse_desc:
  "sorted_wrt (\<lambda>a b. f b \<le> f a) (py_sorted_reverse f xs)"
proof -
  have "sorted (map f (sort_key f (rev xs)))" by (rule sorted_sort_key)
  then have "sorted_wrt (\<lambda>a b. f a \<le> f b) (sort_key f (rev xs))"
    by (simp add: sorted_wrt_map)
  then show ?thesis
    by (simp add: py_sorted_reverse_def sorted_wrt_rev)
qed

lemma py_sorted_reverse_stable:
  "filter (\<lambda>y. f y = k) (py_sorted_reverse f xs) = filter (\<lambda>y. f y = k) xs"
proof -
  have "filter (\<lambda>y. f y = k) (py_sorted_reverse f xs)
          = rev (filter (\<lambda>y. f y = k) (sort_key f (rev xs)))"
    by (simp add: py_sorted_reverse_def rev_filter)
  also have "\<dots> = rev (filter (\<lambda>y. f y = k) (rev xs))"
    by (simp only: sort_key_stable)
  also have "\<dots> = filter (\<lambda>y. f y = k) xs"
    by (simp add: rev_filter)
  finally show ?thesis .
qed

lemma mset_py_sorted_reverse: "mset (py_sorted_reverse f xs) = mset xs"
  by (simp add: py_sorted_reverse_def)

lemma set_py_sorted_reverse: "set (py_sorted_reverse f xs) = set xs"
  by (simp add: py_sorted_reverse_def)

lemma length_py_sorted_reverse: "length (py_sorted_reverse f xs) = length xs"
  by (simp add: py_sorted_reverse_def)

lemma collect_map_Inr:
  "(\<And>x. x \<in> set xs \<Longrightarrow> f x = Inr (g x)) \<Longrightarrow> collect (map f xs) = Inr (map g xs)"
  by (induction xs) simp_all

lemma get_sections_from_pdf_Inr:
  "get_sections_from_pdf be path = Inr secs \<longleftrightarrow>
     open_blocks be path \<noteq> None \<and> secs = doc_candidates be path"
  by (auto simp: get_sections_from_pdf_def doc_candidates_def pages_loop_eq split: option.splits)

lemma all_sections_loop_Inr:
  "all_sections_loop be acc paths = Inr out \<Longrightarrow>
     out = acc @ concat (map (doc_candidates be) paths) \<and> None \<notin> set (map (open_blocks be) paths)"
proof (induction paths arbitrary: acc)
  case Nil
  then show ?case by simp
next
  case (Cons p ps)
  from Cons.prems obtain secs where s: "get_sections_from_pdf be p = Inr secs"
    and r: "all_sections_loop be (acc @ secs) ps = Inr out"
    by (auto split: sum.splits)
  from s have "open_blocks be p \<noteq> None" "secs = doc_candidates be p"
    by (simp_all add: get_sections_from_pdf_Inr)
  with Cons.IH [OF r] show ?case by auto
qed

lemma page_candidates_text:
  "map c_text (page_candidates path ib) = map strip (filter (\<lambda>b. 30 \<le> length (strip b)) (snd ib))"
  by (simp add: page_candidates_def filter_map comp_def)

lemma concat_page_candidates_text:
  "map c_text (concat (map (page_candidates path) ps))
     = map strip (filter (\<lambda>b. 30 \<le> length (strip b)) (concat (map snd ps)))"
  by (induction ps) (simp_all add: page_candidates_text)

lemma doc_candidates_text:
  "map c_text (doc_candidates be path) = map strip (qualifying_blocks be path)"
  by (simp add: doc_candidates_def qualifying_blocks_def concat_page_candidates_text
           split: option.splits)

lemma length_doc_candidates:
  "length (doc_candidates be path) = length (qualifying_blocks be path)"
  using arg_cong [OF doc_candidates_text, of length be path] by simp

lemma length_pool:
  "length (concat (map (doc_candidates be) paths)) = total_qualifying be paths"
  by (induction paths) (simp_all add: total_qualifying_def length_doc_candidates)

lemma page_candidates_unscored: "c \<in> set (page_candidates path ib) \<Longrightarrow> c_score c = None"
  by (auto simp: page_candidates_def)

lemma doc_candidates_unscored: "c \<in> set (doc_candidates be path) \<Longrightarrow> c_score c = None"
  by (auto simp: doc_candidates_def page_candidates_unscored split: option.splits)

lemma pool_unscored: "c \<in> set (concat (map (doc_candidates be) paths)) \<Longrightarrow> c_score c = None"
  by (auto simp: doc_candidates_unscored)

lemma round_half_even_mono: "x \<le> y \<Longrightarrow> round_half_even x \<le> round_half_even y"
proof -
  assume xy: "x \<le> y"
  have lo: "\<And>z. \<lfloor>z\<rfloor> \<le> round_half_even z" and hi: "\<And>z. round_half_even z \<le> \<lfloor>z\<rfloor> + 1"
    by (simp_all add: round_half_even_def Let_def)
  have fl: "\<lfloor>x\<rfloor> \<le> \<lfloor>y\<rfloor>" using xy by (rule floor_mono)
  show ?thesis
  proof (cases "\<lfloor>x\<rfloor> = \<lfloor>y\<rfloor>")
    case True
    then show ?thesis using xy by (auto simp: round_half_even_def Let_def)
  next
    case False
    with fl have "\<lfloor>x\<rfloor> + 1 \<le> \<lfloor>y\<rfloor>" by simp
    with hi [of x] lo [of y] show ?thesis by linarith
  qed
qed

lemma py_round4_mono: "x \<le> y \<Longrightarrow> py_round4 x \<le> py_round4 y"
  by (simp add: py_round4_def round_half_even_mono divide_right_mono)

lemma extracted_entry_scored:
  "c_score s \<noteq> None \<Longrightarrow> extracted_entry i s = Inr (entry_of i s)"
  by (auto simp: extracted_entry_def entry_of_def index0_py_split score_key_def)

lemma ranked_sections_Inr:
  assumes "ranked_sections be paths p j = Inr ranked"
  shows "\<exists>scores. None \<notin> set (map (open_blocks be) paths) \<and>
           length scores = length (concat (map (doc_candidates be) paths)) \<and>
           None \<notin> set (map c_score (with_scores (concat (map (doc_candidates be) paths)) scores)) \<and>
           ranked = take 10 (py_sorted_reverse score_key
                       (with_scores (concat (map (doc_candidates be) paths)) scores))"
proof -
  let ?pool = "concat (map (doc_candidates be) paths)"
  from assms obtain pool sorted_sections where
    a: "all_sections_loop be [] paths = Inr pool" and
    b: "snd (score_relevance be pool (full_query p j)) = Inr sorted_sections" and
    c: "ranked = take 10 sorted_sections"
    by (auto simp: ranked_sections_def split: sum.splits)
  from all_sections_loop_Inr [OF a] have pool: "pool = ?pool"
    and opened: "None \<notin> set (map (open_blocks be) paths)" by simp_all
  from score_relevance_Inr [OF b] obtain scores where
    le: "length scores \<le> length pool" and
    sc: "None \<notin> set (map c_score (with_scores pool scores))" and
    out: "sorted_sections = py_sorted_reverse score_key (with_scores pool scores)"
    by blast
  have "length pool \<le> length scores"
    using sc pool_unscored [of _ be paths] unfolding pool by (rule with_scores_all_scored)
  with le have "length scores = length ?pool" unfolding pool by simp
  with opened sc out c show ?thesis unfolding pool by blast
qed

lemma ranked_length:
  assumes "ranked_sections be paths p j = Inr ranked"
  shows "length ranked = min 10 (total_qualifying be paths)"
proof -
  from ranked_sections_Inr [OF assms] obtain scores where
    l: "length scores = length (concat (map (doc_candidates be) paths))" and
    r: "ranked = take 10 (py_sorted_reverse score_key
                       (with_scores (concat (map (doc_candidates be) paths)) scores))"
    by blast
  show ?thesis
    unfolding r using l
    by (simp add: length_py_sorted_reverse length_with_scores length_pool min.commute)
qed

lemma ranked_scored:
  assumes "ranked_sections be paths p j = Inr ranked" and "c \<in> set ranked"
  shows "c_score c \<noteq> None"
proof -
  from ranked_sections_Inr [OF assms(1)] obtain scores where
    n: "None \<notin> set (map c_score (with_scores (concat (map (doc_candidates be) paths)) scores))" and
    r: "ranked = take 10 (py_sorted_reverse score_key
                       (with_scores (concat (map (doc_candidates be) paths)) scores))"
    by blast
  from assms(2) have "c \<in> set (with_scores (concat (map (doc_candidates be) paths)) scores)"
    unfolding r using set_py_sorted_reverse by (metis in_set_takeD)
  with n show ?thesis by force
qed

lemma ranked_descending:
  assumes "ranked_sections be paths p j = Inr ranked"
  shows "sorted_wrt (\<lambda>a b. score_key b \<le> score_key a) ranked"
proof -
  from ranked_sections_Inr [OF assms] obtain scores where
    r: "ranked = take 10 (py_sorted_reverse score_key
                       (with_scores (concat (map (doc_candidates be) paths)) scores))"
    by blast
  show ?thesis unfolding r by (rule sorted_wrt_take) (rule py_sorted_reverse_desc)
qed

lemma ranked_text_source:
  assumes "ranked_sections be paths p j = Inr ranked" and "c \<in> set ranked"
  shows "\<exists>path b. path \<in> set paths \<and> b \<in> set (qualifying_blocks be path) \<and> c_text c = strip b"
proof -
  let ?pool = "concat (map (doc_candidates be) paths)"
  from ranked_sections_Inr [OF assms(1)] obtain scores where
    l: "length scores = length ?pool" and
    r: "ranked = take 10 (py_sorted_reverse score_key (with_scores ?pool scores))"
    by blast
  from assms(2) have "c \<in> set (with_scores ?pool scores)"
    unfolding r using set_py_sorted_reverse by (metis in_set_takeD)
  then have "c_text c \<in> set (map c_text (with_scores ?pool scores))" by simp
  then have "c_text c \<in> set (map c_text ?pool)"
    using with_scores_proj(1) [of scores ?pool] l by simp
  then obtain path where pa: "path \<in> set paths"
    and "c_text c \<in> set (map c_text (doc_candidates be path))"
    by auto
  then have "c_text c \<in> set (map strip (qualifying_blocks be path))"
    by (simp only: doc_candidates_text)
  with pa show ?thesis by auto
qed

lemma process_documents_Inr:
  assumes "process_documents be paths p j ts = Inr r"
  shows "\<exists>ranked. ranked_sections be paths p j = Inr ranked \<and>
           r = \<lparr>metadata = \<lparr>documents = map basename paths, persona = p, job = j, timestamp = ts\<rparr>,
                extracted_sections = map (\<lambda>(i, s). entry_of i s) (enumerate 0 ranked),
                subsection_analysis = map subsection_of ranked\<rparr>"
proof -
  from assms obtain ranked where rk: "ranked_sections be paths p j = Inr ranked"
    by (auto simp: process_documents_def split: sum.splits)
  have "\<And>x. x \<in> set (enumerate 0 ranked) \<Longrightarrow>
          (\<lambda>(i, s). extracted_entry i s) x = Inr ((\<lambda>(i, s). entry_of i s) x)"
  proof -
    fix x assume "x \<in> set (enumerate 0 ranked)"
    then have "fst x < length ranked" and "snd x = ranked ! fst x"
      by (simp_all add: in_set_enumerate_eq)
    then have "snd x \<in> set ranked" by simp
    then have "c_score (snd x) \<noteq> None" by (rule ranked_scored [OF rk])
    then show "(\<lambda>(i, s). extracted_entry i s) x = Inr ((\<lambda>(i, s). entry_of i s) x)"
      by (cases x) (simp add: extracted_entry_scored)
  qed
  then have "collect (map (\<lambda>(i, s). extracted_entry i s) (enumerate 0 ranked))
               = Inr (map (\<lambda>(i, s). entry_of i s) (enumerate 0 ranked))"
    by (rule collect_map_Inr)
  with assms rk show ?thesis by (simp add: process_documents_def)
qed

lemma nth_entries:
  "i < length ranked \<Longrightarrow>
     map (\<lambda>(i, s). entry_of i s) (enumerate 0 ranked) ! i = entry_of i (ranked ! i)"
  by (simp add: nth_enumerate_eq)

lemma with_scores_score:
  assumes "length scores \<le> length texts"
  shows "map c_score (with_scores texts scores)
           = map Some scores @ drop (length scores) (map c_score texts)"
proof -
  have l: "length (take (length scores) texts) = length scores" using assms by simp
  have "\<And>xs ss. length xs = length ss \<Longrightarrow> map c_score (map2 attach xs ss) = map Some ss"
  proof -
    fix xs :: "candidate list" and ss :: "real list"
    assume "length xs = length ss"
    then show "map c_score (map2 attach xs ss) = map Some ss"
      by (induction xs ss rule: list_induct2) (simp_all add: attach_def)
  qed
  from this [OF l] show ?thesis
    by (simp add: with_scores_def drop_map)
qed

lemma filter_scored:
  assumes "None \<notin> set (map c_score xs)"
  shows "filter (\<lambda>c. c_score c = Some k) xs = filter (\<lambda>c. score_key c = k) xs"
proof (rule filter_cong [OF refl])
  fix c assume "c \<in> set xs"
  with assms have "c_score c \<noteq> None" by force
  then show "(c_score c = Some k) = (score_key c = k)"
    by (auto simp: score_key_def)
qed

lemma prefix_take_mono: "prefix xs ys \<Longrightarrow> prefix (take n xs) (take n ys)"
  by (auto simp: prefix_def)

lemma prefix_take_le: "m \<le> n \<Longrightarrow> prefix (take m xs) (take n xs)"
proof -
  assume "m \<le> n"
  then have "take m xs = take m (take n xs)" by (simp add: min_def)
  then show ?thesis by (simp only: take_is_prefix)
qed

lemma rev_dropWhile_takeWhile:
  "rev (dropWhile P (rev xs)) @ rev (takeWhile P (rev xs)) = xs"
proof -
  have "rev (takeWhile P (rev xs) @ dropWhile P (rev xs)) = xs"
    by (simp only: takeWhile_dropWhile_id rev_rev_ident)
  then show ?thesis by (simp only: rev_append)
qed

lemma strip_suffix_part:
  "dropWhile is_space b = strip b @ rev (takeWhile is_space (rev (dropWhile is_space b)))"
  unfolding strip_def by (rule rev_dropWhile_takeWhile [symmetric])

lemma strip_decomposition:
  "\<exists>l t. b = l @ strip b @ t \<and> list_all is_space l \<and> list_all is_space t"
proof -
  let ?d = "dropWhile is_space b"
  let ?t = "rev (takeWhile is_space (rev ?d))"
  have "b = takeWhile is_space b @ ?d" by simp
  also have "?d = strip b @ ?t" by (rule strip_suffix_part)
  finally have 1: "b = takeWhile is_space b @ strip b @ ?t" .
  have 3: "list_all is_space (takeWhile is_space b)"
    by (simp add: list_all_iff) (meson set_takeWhileD)
  have 4: "list_all is_space ?t"
    by (simp add: list_all_iff) (meson set_takeWhileD)
  from 1 3 4 show ?thesis by blast
qed

lemma strip_ends:
  assumes "strip b \<noteq> []"
  shows "\<not> is_space (hd (strip b)) \<and> \<not> is_space (last (strip b))"
proof -
  let ?d = "dropWhile is_space b"
  let ?e = "dropWhile is_space (rev ?d)"
  from assms have e: "?e \<noteq> []" by (simp add: strip_def)
  then have "\<not> is_space (hd ?e)" by (rule hd_dropWhile)
  then have l: "\<not> is_space (last (strip b))" using e by (simp add: strip_def last_rev)
  have d: "?d \<noteq> []"
  proof
    assume a: "?d = []"
    have "?e = []" unfolding a by simp
    with e show False by simp
  qed
  then have hd: "\<not> is_space (hd ?d)" by (rule hd_dropWhile)
  have "hd ?d = hd (strip b @ rev (takeWhile is_space (rev ?d)))"
    by (rule arg_cong [OF strip_suffix_part])
  also have "\<dots> = hd (strip b)" using assms by (rule hd_append2)
  finally show ?thesis using hd l by simp
qed

lemma get_sections_texts:
  assumes "get_sections_from_pdf be path = Inr secs"
  shows "\<exists>doc. open_blocks be path = Some doc \<and>
           map c_text secs = filter (\<lambda>t. 30 \<le> length t) (map strip (concat doc))"
proof -
  from assms obtain doc where d: "open_blocks be path = Some doc"
    and s: "secs = doc_candidates be path"
    by (auto simp: get_sections_from_pdf_Inr)
  have "map c_text secs = map strip (qualifying_blocks be path)"
    unfolding s by (rule doc_candidates_text)
  also have "\<dots> = filter (\<lambda>t. 30 \<le> length t) (map strip (concat doc))"
    by (simp add: qualifying_blocks_def d filter_map comp_def)
  finally show ?thesis using d by blast
qed

lemma score_relevance_empty_eval:
  "score_relevance be [] q =
     (case encode_texts be [] of
        None \<Rightarrow> ([EncodeTexts []], Inl EmbeddingError)
      | Some te \<Rightarrow>
          (case encode_query be q of
             None \<Rightarrow> ([EncodeTexts [], EncodeQuery q], Inl EmbeddingError)
           | Some qe \<Rightarrow>
               ([EncodeTexts [], EncodeQuery q],
                (case cos_sim_row be qe te of
                   None \<Rightarrow> Inl EmbeddingError
                 | Some scores \<Rightarrow> if scores = [] then Inr [] else Inl IndexError))))"
proof -
  have "(case assign_scores [] (enumerate 0 scores) of Inl e \<Rightarrow> Inl e
          | Inr texts' \<Rightarrow> sorted_by_score texts')
        = (if scores = [] then Inr [] else Inl IndexError)" for scores
    by (cases scores) (simp_all add: sorted_by_score_def py_sorted_reverse_def)
  then show ?thesis
    by (simp add: score_relevance_def split: option.splits)
qed

lemma all_sections_loop_opened:
  "None \<notin> set (map (open_blocks be) paths) \<Longrightarrow>
     all_sections_loop be acc paths = Inr (acc @ concat (map (doc_candidates be) paths))"
proof (induction paths arbitrary: acc)
  case Nil
  then show ?case by simp
next
  case (Cons p ps)
  from Cons.prems have o: "open_blocks be p \<noteq> None" and r: "None \<notin> set (map (open_blocks be) ps)"
    by auto
  from o have "get_sections_from_pdf be p = Inr (doc_candidates be p)"
    by (simp add: get_sections_from_pdf_Inr)
  with Cons.IH [OF r] show ?case by simp
qed

lemma all_sections_loop_Inl:
  "all_sections_loop be acc paths = Inl e \<Longrightarrow>
     \<exists>path. path \<in> set paths \<and> open_blocks be path = None \<and> e = DocumentReadError path"
proof (induction paths arbitrary: acc)
  case Nil
  then show ?case by simp
next
  case (Cons p ps)
  show ?case
  proof (cases "get_sections_from_pdf be p")
    case (Inl e')
    with Cons.prems have "e = e'" by simp
    moreover from Inl have "open_blocks be p = None \<and> e' = DocumentReadError p"
      by (auto simp: get_sections_from_pdf_def split: option.splits)
    ultimately show ?thesis by auto
  next
    case (Inr secs)
    with Cons.prems have "all_sections_loop be (acc @ secs) ps = Inl e" by simp
    from Cons.IH [OF this] show ?thesis by auto
  qed
qed

lemma empty_pool:
  assumes "total_qualifying be paths = 0"
  shows "concat (map (doc_candidates be) paths) = []"
  using length_pool [of be paths] assms by simp

lemma assign_scores_Inl: "assign_scores texts iss = Inl e \<Longrightarrow> e = IndexError"
  by (induction texts iss rule: assign_scores.induct) (auto split: if_splits)

lemma score_relevance_Inl:
  "snd (score_relevance be texts q) = Inl e \<Longrightarrow> e = EmbeddingError \<or> e = IndexError \<or> e = KeyError"
  by (auto simp: score_relevance_def sorted_by_score_def
           split: option.splits sum.splits if_splits dest: assign_scores_Inl)

lemma ranked_sections_Inl:
  assumes "ranked_sections be paths p j = Inl e"
  shows "(\<exists>path. path \<in> set paths \<and> e = DocumentReadError path) \<or>
         e = EmbeddingError \<or> e = IndexError \<or> e = KeyError"
proof (cases "all_sections_loop be [] paths")
  case (Inl e')
  with assms have "e = e'" by (simp add: ranked_sections_def)
  with all_sections_loop_Inl [OF Inl] show ?thesis by blast
next
  case (Inr pool)
  with assms have "snd (score_relevance be pool (full_query p j)) = Inl e"
    by (simp add: ranked_sections_def split: sum.splits)
  from score_relevance_Inl [OF this] show ?thesis by blast
qed

lemma collect_ranked:
  assumes rk: "ranked_sections be paths p j = Inr ranked"
  shows "collect (map (\<lambda>(i, s). extracted_entry i s) (enumerate 0 ranked))
           = Inr (map (\<lambda>(i, s). entry_of i s) (enumerate 0 ranked))"
proof (rule collect_map_Inr)
  fix x assume "x \<in> set (enumerate 0 ranked)"
  then have "fst x < length ranked" and "snd x = ranked ! fst x"
    by (simp_all add: in_set_enumerate_eq)
  then have "snd x \<in> set ranked" by simp
  then have "c_score (snd x) \<noteq> None" by (rule ranked_scored [OF rk])
  then show "(\<lambda>(i, s). extracted_entry i s) x = Inr ((\<lambda>(i, s). entry_of i s) x)"
    by (cases x) (simp add: extracted_entry_scored)
qed

lemma process_documents_Inl:
  assumes "process_documents be paths p j ts = Inl e"
  shows "ranked_sections be paths p j = Inl e"
proof (cases "ranked_sections be paths p j")
  case (Inl e')
  with assms show ?thesis by (simp add: process_documents_def)
next
  case (Inr ranked)
  from collect_ranked [OF Inr] Inr assms show ?thesis
    by (simp add: process_documents_def)
qed

lemma process_documents_never_EmptyInputError:
  "process_documents be paths p j ts \<noteq> Inl EmptyInputError"
proof
  assume "process_documents be paths p j ts = Inl EmptyInputError"
  then have "ranked_sections be paths p j = Inl EmptyInputError" by (rule process_documents_Inl)
  from ranked_sections_Inl [OF this] show False by simp
qed

lemma ranked_sections_empty_pool:
  assumes "total_qualifying be paths = 0"
  shows "ranked_sections be paths p j = Inr ranked \<longleftrightarrow>
           ranked = [] \<and> None \<notin> set (map (open_blocks be) paths) \<and>
           (\<exists>te qe. encode_texts be [] = Some te \<and> encode_query be (full_query p j) = Some qe \<and>
                    cos_sim_row be qe te = Some [])"
proof (cases "None \<in> set (map (open_blocks be) paths)")
  case True
  have "ranked_sections be paths p j \<noteq> Inr ranked"
  proof
    assume "ranked_sections be paths p j = Inr ranked"
    from ranked_sections_Inr [OF this] True show False by blast
  qed
  with True show ?thesis by simp
next
  case False
  from all_sections_loop_opened [OF False, of "[]"] empty_pool [OF assms]
  have "all_sections_loop be [] paths = Inr []" by simp
  then have "ranked_sections be paths p j =
               (case snd (score_relevance be [] (full_query p j)) of
                  Inl e \<Rightarrow> Inl e | Inr s \<Rightarrow> Inr (take 10 s))"
    by (simp add: ranked_sections_def)
  with False show ?thesis
    by (auto simp: score_relevance_empty_eval split: option.splits if_splits)
qed

subsection \<open>The concrete run, evaluated\<close>

lemmas demo_text_defs = text_veg_def text_beans_def text_calcium_def text_iron_def ustr_def

lemma demo_sections_a:
  "get_sections_from_pdf demo_backend (ustr ''uploads/a.pdf'') = Inr (take 2 demo_pool)"
  by (simp add: get_sections_from_pdf_def demo_backend_def demo_open_def demo_pool_def
        demo_text_defs strip_def is_space_def basename_def enumerate_eq_zip Let_def)

lemma demo_all_sections: "all_sections_loop demo_backend [] demo_paths = Inr demo_pool"
  by (simp add: demo_paths_def get_sections_from_pdf_def demo_backend_def demo_open_def demo_pool_def
        demo_text_defs strip_def is_space_def basename_def Let_def)

lemma demo_scored:
  "snd (score_relevance demo_backend demo_pool q) = Inr demo_ranked"
  by (simp add: score_relevance_def demo_backend_def demo_pool_def demo_ranked_def demo_score_def
        demo_text_defs sorted_by_score_def py_sorted_reverse_def score_key_def)

lemma demo_ranked_sections:
  "ranked_sections demo_backend demo_paths demo_persona demo_job = Inr demo_ranked"
  by (simp add: ranked_sections_def demo_all_sections demo_scored demo_ranked_def)

lemma demo_run:
  "process_documents demo_backend demo_paths demo_persona demo_job demo_timestamp = Inr demo_report"
  unfolding process_documents_def demo_ranked_sections sum.case
  by (simp add: demo_ranked_def demo_report_def
        demo_metadata_def demo_paths_def basename_def extracted_entry_def index0_def subsection_of_def
        py_round4_def round_half_even_def Let_def demo_text_defs)

lemma demo_total: "total_qualifying demo_backend demo_paths = 4"
  by (simp add: total_qualifying_def qualifying_blocks_def demo_paths_def demo_backend_def demo_open_def
        demo_text_defs strip_def is_space_def)

lemma many_all_sections:
  "all_sections_loop many_backend [] many_paths
     = Inr (map (\<lambda>c. many_candidate c None) [65, 66, 67, 68, 69, 70, 71, 72, 73, 74, 75, 76])"
  by (simp add: many_paths_def get_sections_from_pdf_def many_backend_def demo_backend_def
        many_open_def many_candidate_def many_text_def ustr_def strip_def is_space_def
        basename_def Let_def)

lemma many_scored:
  "snd (score_relevance many_backend
          (map (\<lambda>c. many_candidate c None) [65, 66, 67, 68, 69, 70, 71, 72, 73, 74, 75, 76]) q)
     = Inr (many_ranked @ [many_candidate 72 (Some 0), many_candidate 76 (Some 0)])"
  by (simp add: score_relevance_def many_backend_def demo_backend_def many_candidate_def
        many_ranked_def demo_score_def many_text_def sorted_by_score_def py_sorted_reverse_def
        score_key_def)

lemma many_ranked_sections:
  "ranked_sections many_backend many_paths demo_persona demo_job = Inr many_ranked"
  unfolding ranked_sections_def many_all_sections many_scored sum.case
  by (simp add: many_ranked_def)

lemma many_run:
  "process_documents many_backend many_paths demo_persona demo_job demo_timestamp = Inr many_report"
  unfolding process_documents_def many_ranked_sections sum.case
  by (simp add: many_ranked_def many_report_def many_candidate_def many_entry_def
        many_subsection_def demo_metadata_def many_paths_def basename_def extracted_entry_def
        index0_def subsection_of_def py_round4_def round_half_even_def Let_def many_text_def ustr_def)

lemma many_total: "total_qualifying many_backend many_paths = 12"
  by (simp add: total_qualifying_def qualifying_blocks_def many_paths_def many_backend_def
        demo_backend_def many_open_def many_text_def ustr_def strip_def is_space_def)

lemma demo_report_lengths:
  "length (extracted_sections demo_report) = 4" "length (subsection_analysis demo_report) = 4"
  by (simp_all add: demo_report_def)

lemma strict_empty_total: "total_qualifying strict_backend empty_paths = 0"
  by (simp add: total_qualifying_def qualifying_blocks_def empty_paths_def strict_backend_def
       demo_backend_def demo_open_def ustr_def strip_def is_space_def)

lemma strict_rejects_empty: "encode_texts strict_backend [] = None"
  by (simp add: strict_backend_def demo_backend_def)

lemma strict_empty_readable: "None \<notin> set (map (open_blocks strict_backend) empty_paths)"
  by (simp add: empty_paths_def strict_backend_def demo_backend_def demo_open_def ustr_def)

section \<open>The claims\<close>

text \<open>
  Claim C1. Whenever \<open>process_documents\<close> returns a report, \<open>extracted_sections\<close> and
  \<open>subsection_analysis\<close> have the same length, which is the minimum of 10 and the number
  of qualifying blocks over all input documents; and entry \<open>i\<close> of each sequence is built
  from the same scored candidate \<open>ranked ! i\<close> of the list \<^verbatim>\<open>ranked_sections\<close>, which is in
  descending order of score: the entry of \<open>extracted_sections\<close> by \<open>extracted_entry i\<close>,
  the entry of \<open>subsection_analysis\<close> by \<open>subsection_of\<close>, so that both carry the same
  document and page.
\<close>

theorem report_sequences_aligned:
  assumes "process_documents be paths p j ts = Inr r"
  shows "length (extracted_sections r) = length (subsection_analysis r) \<and>
         length (extracted_sections r) = min 10 (total_qualifying be paths) \<and>
         (\<exists>ranked. ranked_sections be paths p j = Inr ranked \<and>
            length ranked = length (extracted_sections r) \<and>
            sorted_wrt (\<lambda>a b. score_key b \<le> score_key a) ranked \<and>
            (\<forall>i<length ranked.
               extracted_entry i (ranked ! i) = Inr (extracted_sections r ! i) \<and>
               subsection_of (ranked ! i) = subsection_analysis r ! i \<and>
               es_document (extracted_sections r ! i) = sa_document (subsection_analysis r ! i) \<and>
               es_page (extracted_sections r ! i) = sa_page (subsection_analysis r ! i)))"
proof -
  from process_documents_Inr [OF assms] obtain ranked where
    rk: "ranked_sections be paths p j = Inr ranked" and
    es: "extracted_sections r = map (\<lambda>(i, s). entry_of i s) (enumerate 0 ranked)" and
    sa: "subsection_analysis r = map subsection_of ranked"
    by auto
  have len: "length (extracted_sections r) = length ranked" by (simp add: es)
  have per: "extracted_entry i (ranked ! i) = Inr (extracted_sections r ! i) \<and>
             subsection_of (ranked ! i) = subsection_analysis r ! i \<and>
             es_document (extracted_sections r ! i) = sa_document (subsection_analysis r ! i) \<and>
             es_page (extracted_sections r ! i) = sa_page (subsection_analysis r ! i)"
    if i: "i < length ranked" for i
  proof -
    from i have "ranked ! i \<in> set ranked" by simp
    then have "c_score (ranked ! i) \<noteq> None" by (rule ranked_scored [OF rk])
    then have "extracted_entry i (ranked ! i) = Inr (entry_of i (ranked ! i))"
      by (rule extracted_entry_scored)
    moreover have "extracted_sections r ! i = entry_of i (ranked ! i)"
      unfolding es using i by (rule nth_entries)
    moreover have "subsection_analysis r ! i = subsection_of (ranked ! i)"
      unfolding sa using i by simp
    ultimately show ?thesis by (simp add: entry_of_def subsection_of_def)
  qed
  have "length (extracted_sections r) = length (subsection_analysis r)" by (simp add: es sa)
  moreover have "length (extracted_sections r) = min 10 (total_qualifying be paths)"
    unfolding len by (rule ranked_length [OF rk])
  moreover have "sorted_wrt (\<lambda>a b. score_key b \<le> score_key a) ranked"
    by (rule ranked_descending [OF rk])
  ultimately show ?thesis using rk len per by auto
qed

theorem report_sequences_aligned_witness:
  "process_documents many_backend many_paths demo_persona demo_job demo_timestamp = Inr many_report \<and>
   total_qualifying many_backend many_paths = 12 \<and>
   length (extracted_sections many_report) = 10 \<and>
   length (subsection_analysis many_report) = 10 \<and>
   (\<exists>ranked. ranked_sections many_backend many_paths demo_persona demo_job = Inr ranked \<and>
      length ranked = 10 \<and>
      extracted_entry 9 (ranked ! 9) = Inr (extracted_sections many_report ! 9) \<and>
      subsection_of (ranked ! 9) = subsection_analysis many_report ! 9)"
proof -
  note run = many_run
  from report_sequences_aligned [OF run] obtain ranked where
    l1: "length (extracted_sections many_report) = length (subsection_analysis many_report)" and
    l2: "length (extracted_sections many_report) = min 10 (total_qualifying many_backend many_paths)" and
    rk: "ranked_sections many_backend many_paths demo_persona demo_job = Inr ranked" and
    l3: "length ranked = length (extracted_sections many_report)" and
    al: "\<forall>i<length ranked.
           extracted_entry i (ranked ! i) = Inr (extracted_sections many_report ! i) \<and>
           subsection_of (ranked ! i) = subsection_analysis many_report ! i \<and>
           es_document (extracted_sections many_report ! i) = sa_document (subsection_analysis many_report ! i) \<and>
           es_page (extracted_sections many_report ! i) = sa_page (subsection_analysis many_report ! i)"
    by blast
  from l2 have e: "length (extracted_sections many_report) = 10" by (simp add: many_total)
  with l1 have s: "length (subsection_analysis many_report) = 10" by simp
  from l3 e have r: "length ranked = 10" by simp
  then have "9 < length ranked" by simp
  with al have "extracted_entry 9 (ranked ! 9) = Inr (extracted_sections many_report ! 9) \<and>
      subsection_of (ranked ! 9) = subsection_analysis many_report ! 9"
    by blast
  with rk r have "\<exists>ranked. ranked_sections many_backend many_paths demo_persona demo_job = Inr ranked \<and>
      length ranked = 10 \<and>
      extracted_entry 9 (ranked ! 9) = Inr (extracted_sections many_report ! 9) \<and>
      subsection_of (ranked ! 9) = subsection_analysis many_report ! 9"
    by blast
  with run e s show ?thesis by (simp add: many_total)
qed

text \<open>
  Claim C2. Whenever \<open>score_relevance\<close> returns, its result is a rearrangement of the
  input candidates with the scores of the backend stored in them (\<open>scored\<close>, in input
  order), it is in descending order of score, and the sort is stable: for every score
  \<open>k\<close>, the candidates of score \<open>k\<close> appear in the result in the order they have in the
  input.
\<close>

theorem score_relevance_descending_stable:
  assumes "snd (score_relevance be texts query) = Inr out"
  shows "\<exists>te qe scores scored.
           encode_texts be (map c_text texts) = Some te \<and>
           encode_query be query = Some qe \<and>
           cos_sim_row be qe te = Some scores \<and>
           length scored = length texts \<and>
           map c_doc scored = map c_doc texts \<and>
           map c_page scored = map c_page texts \<and>
           map c_text scored = map c_text texts \<and>
           map c_score scored = map Some scores @ drop (length scores) (map c_score texts) \<and>
           None \<notin> set (map c_score scored) \<and>
           mset out = mset scored \<and>
           sorted_wrt (\<lambda>a b. score_key b \<le> score_key a) out \<and>
           (\<forall>k. filter (\<lambda>c. c_score c = Some k) out = filter (\<lambda>c. c_score c = Some k) scored)"
proof -
  from score_relevance_Inr [OF assms] obtain te qe scores where
    te: "encode_texts be (map c_text texts) = Some te" and
    qe: "encode_query be query = Some qe" and
    cs: "cos_sim_row be qe te = Some scores" and
    le: "length scores \<le> length texts" and
    sc: "None \<notin> set (map c_score (with_scores texts scores))" and
    out: "out = py_sorted_reverse score_key (with_scores texts scores)"
    by blast
  let ?scored = "with_scores texts scores"
  have sc_out: "None \<notin> set (map c_score out)"
    using sc unfolding out by (simp add: set_py_sorted_reverse)
  have stable: "filter (\<lambda>c. c_score c = Some k) out = filter (\<lambda>c. c_score c = Some k) ?scored" for k
    unfolding filter_scored [OF sc_out] filter_scored [OF sc]
    unfolding out by (rule py_sorted_reverse_stable)
  have "length ?scored = length texts" using le by (rule length_with_scores)
  moreover have "map c_doc ?scored = map c_doc texts" using le by (rule with_scores_proj)
  moreover have "map c_page ?scored = map c_page texts" using le by (rule with_scores_proj)
  moreover have "map c_text ?scored = map c_text texts" using le by (rule with_scores_proj)
  moreover have "map c_score ?scored = map Some scores @ drop (length scores) (map c_score texts)"
    using le by (rule with_scores_score)
  moreover have "mset out = mset ?scored" unfolding out by (rule mset_py_sorted_reverse)
  moreover have "sorted_wrt (\<lambda>a b. score_key b \<le> score_key a) out"
    unfolding out by (rule py_sorted_reverse_desc)
  ultimately show ?thesis using te qe cs sc stable by blast
qed

theorem score_relevance_descending_stable_witness:
  "snd (score_relevance demo_backend demo_pool demo_query) = Inr demo_ranked \<and>
   sorted_wrt (\<lambda>a b. score_key b \<le> score_key a) demo_ranked \<and>
   (\<exists>scored. map c_text scored = map c_text demo_pool \<and>
      map c_score scored = [Some (2 / 32), Some (2 / 32), Some (3 / 32), Some (1 / 32)] \<and>
      mset demo_ranked = mset scored \<and>
      (\<forall>k. filter (\<lambda>c. c_score c = Some k) demo_ranked = filter (\<lambda>c. c_score c = Some k) scored))"
proof -
  have run: "snd (score_relevance demo_backend demo_pool demo_query) = Inr demo_ranked"
    by (rule demo_scored)
  from score_relevance_descending_stable [OF run] obtain te qe scores scored where
    te: "encode_texts demo_backend (map c_text demo_pool) = Some te" and
    qe: "encode_query demo_backend demo_query = Some qe" and
    cs: "cos_sim_row demo_backend qe te = Some scores" and
    tx: "map c_text scored = map c_text demo_pool" and
    sc: "map c_score scored = map Some scores @ drop (length scores) (map c_score demo_pool)" and
    ms: "mset demo_ranked = mset scored" and
    so: "sorted_wrt (\<lambda>a b. score_key b \<le> score_key a) demo_ranked" and
    st: "\<forall>k. filter (\<lambda>c. c_score c = Some k) demo_ranked = filter (\<lambda>c. c_score c = Some k) scored"
    by blast
  from te have "te = map c_text demo_pool" by (simp add: demo_backend_def)
  with cs have "scores = map demo_score (map c_text demo_pool)" by (simp add: demo_backend_def)
  then have "scores = [2 / 32, 2 / 32, 3 / 32, 1 / 32]"
    by (simp add: demo_pool_def demo_score_def demo_text_defs)
  with sc have "map c_score scored = [Some (2 / 32), Some (2 / 32), Some (3 / 32), Some (1 / 32)]"
    by (simp add: demo_pool_def)
  with tx ms st have "\<exists>scored. map c_text scored = map c_text demo_pool \<and>
      map c_score scored = [Some (2 / 32), Some (2 / 32), Some (3 / 32), Some (1 / 32)] \<and>
      mset demo_ranked = mset scored \<and>
      (\<forall>k. filter (\<lambda>c. c_score c = Some k) demo_ranked = filter (\<lambda>c. c_score c = Some k) scored)"
    by (intro exI [of _ scored] conjI)
  with run so show ?thesis by (intro conjI)
qed

text \<open>
  Claim C3. In every report returned by \<open>process_documents\<close>, the entry at 0-based position
  \<open>i\<close> of \<open>extracted_sections\<close> has \<open>importance_rank = i + 1\<close>, and the rounded scores do
  not increase along the sequence.
\<close>

theorem ranks_ascending_scores_descending:
  assumes "process_documents be paths p j ts = Inr r"
  shows "(\<forall>i<length (extracted_sections r). importance_rank (extracted_sections r ! i) = i + 1) \<and>
         (\<forall>i j. i \<le> j \<and> j < length (extracted_sections r) \<longrightarrow>
                es_score (extracted_sections r ! j) \<le> es_score (extracted_sections r ! i))"
proof -
  from process_documents_Inr [OF assms] obtain ranked where
    rk: "ranked_sections be paths p j = Inr ranked" and
    es: "extracted_sections r = map (\<lambda>(i, s). entry_of i s) (enumerate 0 ranked)"
    by auto
  have len: "length (extracted_sections r) = length ranked" by (simp add: es)
  have nth: "extracted_sections r ! i = entry_of i (ranked ! i)" if "i < length ranked" for i
    unfolding es using that by (rule nth_entries)
  have desc: "sorted_wrt (\<lambda>a b. score_key b \<le> score_key a) ranked"
    by (rule ranked_descending [OF rk])
  have a: "importance_rank (extracted_sections r ! i) = i + 1" if "i < length (extracted_sections r)" for i
    using that nth [of i] by (simp add: len entry_of_def)
  have b: "es_score (extracted_sections r ! j) \<le> es_score (extracted_sections r ! i)"
    if "i \<le> j" and "j < length (extracted_sections r)" for i j
  proof -
    from that have j: "j < length ranked" and i: "i < length ranked" by (simp_all add: len)
    have "score_key (ranked ! j) \<le> score_key (ranked ! i)"
    proof (cases "i = j")
      case True
      then show ?thesis by simp
    next
      case False
      with that have "i < j" by simp
      with desc j show ?thesis by (simp add: sorted_wrt_iff_nth_less)
    qed
    then have "py_round4 (score_key (ranked ! j)) \<le> py_round4 (score_key (ranked ! i))"
      by (rule py_round4_mono)
    then show ?thesis by (simp add: nth [OF i] nth [OF j] entry_of_def)
  qed
  from a b show ?thesis by blast
qed

theorem ranks_ascending_scores_descending_witness:
  "process_documents demo_backend demo_paths demo_persona demo_job demo_timestamp = Inr demo_report \<and>
   importance_rank (extracted_sections demo_report ! 2) = 3 \<and>
   es_score (extracted_sections demo_report ! 3) \<le> es_score (extracted_sections demo_report ! 0) \<and>
   es_score (extracted_sections demo_report ! 0) = 938 / 10000 \<and>
   es_score (extracted_sections demo_report ! 3) = 312 / 10000"
proof -
  note run = demo_run
  from ranks_ascending_scores_descending [OF run] have
    a: "\<forall>i<length (extracted_sections demo_report). importance_rank (extracted_sections demo_report ! i) = i + 1" and
    b: "\<forall>i j. i \<le> j \<and> j < length (extracted_sections demo_report) \<longrightarrow>
                es_score (extracted_sections demo_report ! j) \<le> es_score (extracted_sections demo_report ! i)"
    by blast+
  from a have "importance_rank (extracted_sections demo_report ! 2) = 2 + 1"
    by (simp add: demo_report_lengths)
  moreover from b have "es_score (extracted_sections demo_report ! 3) \<le> es_score (extracted_sections demo_report ! 0)"
    by (simp add: demo_report_lengths)
  moreover have "es_score (extracted_sections demo_report ! 0) = 938 / 10000"
    "es_score (extracted_sections demo_report ! 3) = 312 / 10000"
    by (simp_all add: demo_report_def)
  ultimately show ?thesis using run by simp
qed

text \<open>
  Claim C4, as the code has it. The claim says that on an empty candidate sequence the
  scorer returns the empty sequence without calling the embedding model. The source has
  no such guard: line 77 calls \<^verbatim>\<open>model.encode\<close> on the list of texts whatever its length.
  On the empty sequence the calls made are exactly these: \<open>EncodeTexts []\<close> alone when that
  call raises, and then \<open>score_relevance\<close> ends with the exception; \<open>EncodeTexts []\<close>
  followed by \<open>EncodeQuery q\<close> when it does not. A result, if there is one, is empty;
  there is one exactly when both calls succeed and the similarity row is empty; and any
  failure is the backend's exception or IndexError (scores for no text).
\<close>

theorem score_relevance_empty_input:
  "fst (score_relevance be [] q) =
     (if encode_texts be [] = None then [EncodeTexts []] else [EncodeTexts [], EncodeQuery q]) \<and>
   (encode_texts be [] = None \<longrightarrow> snd (score_relevance be [] q) = Inl EmbeddingError) \<and>
   (\<forall>out. snd (score_relevance be [] q) = Inr out \<longrightarrow> out = []) \<and>
   (snd (score_relevance be [] q) = Inr [] \<longleftrightarrow>
      (\<exists>te qe. encode_texts be [] = Some te \<and> encode_query be q = Some qe \<and>
               cos_sim_row be qe te = Some [])) \<and>
   (\<forall>e. snd (score_relevance be [] q) = Inl e \<longrightarrow> e = EmbeddingError \<or> e = IndexError)"
  unfolding score_relevance_empty_eval
  by (auto split: option.splits if_splits)

theorem score_relevance_empty_input_counterexample:
  "score_relevance strict_backend [] demo_query = ([EncodeTexts []], Inl EmbeddingError) \<and>
   fst (score_relevance strict_backend [] demo_query) \<noteq> [] \<and>
   snd (score_relevance strict_backend [] demo_query) \<noteq> Inr []"
  by (simp add: score_relevance_empty_eval strict_rejects_empty)

theorem score_relevance_empty_input_witness:
  "encode_texts strict_backend [] = None \<and>
   fst (score_relevance strict_backend [] demo_query) = [EncodeTexts []] \<and>
   snd (score_relevance strict_backend [] demo_query) = Inl EmbeddingError \<and>
   encode_texts demo_backend [] = Some [] \<and>
   encode_query demo_backend demo_query = Some demo_query \<and>
   cos_sim_row demo_backend demo_query [] = Some [] \<and>
   fst (score_relevance demo_backend [] demo_query) = [EncodeTexts [], EncodeQuery demo_query] \<and>
   snd (score_relevance demo_backend [] demo_query) = Inr []"
proof -
  note strict = score_relevance_empty_input [of strict_backend demo_query]
  note demo = score_relevance_empty_input [of demo_backend demo_query]
  have n: "encode_texts strict_backend [] = None" by (rule strict_rejects_empty)
  from strict n have s1: "fst (score_relevance strict_backend [] demo_query) = [EncodeTexts []]"
    by simp
  from strict n have s2: "snd (score_relevance strict_backend [] demo_query) = Inl EmbeddingError"
    by blast
  have b: "encode_texts demo_backend [] = Some []"
          "encode_query demo_backend demo_query = Some demo_query"
          "cos_sim_row demo_backend demo_query [] = Some []"
    by (simp_all add: demo_backend_def)
  from demo b(1) have d1:
    "fst (score_relevance demo_backend [] demo_query) = [EncodeTexts [], EncodeQuery demo_query]"
    by simp
  from b have "\<exists>te qe. encode_texts demo_backend [] = Some te \<and>
                     encode_query demo_backend demo_query = Some qe \<and>
                     cos_sim_row demo_backend qe te = Some []"
    by blast
  with demo have d2: "snd (score_relevance demo_backend [] demo_query) = Inr []" by blast
  from n s1 s2 b d1 d2 show ?thesis by (intro conjI)
qed

text \<open>
  Claim C5, as the code has it. The claim says that \<open>process_documents\<close> fails with
  \<open>EmptyInputError\<close> when no document has a qualifying block. The source has no check of
  the pool and never ends with \<open>EmptyInputError\<close>. With an embedding model that raises on
  the empty list, as the pinned library does, the run still fails instead of returning a
  report: with the model's exception when every document can be read, and otherwise with
  the exception of a document that cannot be read.
\<close>

theorem empty_pool_outcome:
  assumes "total_qualifying be paths = 0"
  shows "process_documents be paths p j ts \<noteq> Inl EmptyInputError \<and>
         (encode_texts be [] = None \<longrightarrow>
            (\<exists>e. process_documents be paths p j ts = Inl e) \<and>
            (None \<notin> set (map (open_blocks be) paths) \<longrightarrow>
               process_documents be paths p j ts = Inl EmbeddingError) \<and>
            (\<forall>e. process_documents be paths p j ts = Inl e \<longrightarrow>
               e = EmbeddingError \<or>
               (\<exists>path. path \<in> set paths \<and> open_blocks be path = None \<and>
                       e = DocumentReadError path)))"
proof (intro conjI impI allI)
  show "process_documents be paths p j ts \<noteq> Inl EmptyInputError"
    by (rule process_documents_never_EmptyInputError)
next
  assume rej: "encode_texts be [] = None"
  show "\<exists>e. process_documents be paths p j ts = Inl e"
  proof (cases "process_documents be paths p j ts")
    case (Inl e)
    then show ?thesis by blast
  next
    case (Inr r)
    from process_documents_Inr [OF Inr] obtain ranked where
      "ranked_sections be paths p j = Inr ranked" by blast
    then have "\<exists>te qe. encode_texts be [] = Some te \<and> encode_query be (full_query p j) = Some qe \<and>
                    cos_sim_row be qe te = Some []"
      by (simp add: ranked_sections_empty_pool [OF assms])
    with rej show ?thesis by simp
  qed
next
  assume rej: "encode_texts be [] = None"
    and opened: "None \<notin> set (map (open_blocks be) paths)"
  from all_sections_loop_opened [OF opened, of "[]"] empty_pool [OF assms]
  have "all_sections_loop be [] paths = Inr []" by simp
  then have "ranked_sections be paths p j = Inl EmbeddingError"
    by (simp add: ranked_sections_def score_relevance_empty_eval rej)
  then show "process_documents be paths p j ts = Inl EmbeddingError"
    by (simp add: process_documents_def)
next
  fix e
  assume rej: "encode_texts be [] = None"
    and fail: "process_documents be paths p j ts = Inl e"
  from fail have rk: "ranked_sections be paths p j = Inl e" by (rule process_documents_Inl)
  show "e = EmbeddingError \<or>
        (\<exists>path. path \<in> set paths \<and> open_blocks be path = None \<and> e = DocumentReadError path)"
  proof (cases "all_sections_loop be [] paths")
    case (Inl e')
    with rk have "e = e'" by (simp add: ranked_sections_def)
    with all_sections_loop_Inl [OF Inl] show ?thesis by blast
  next
    case (Inr pool)
    from all_sections_loop_Inr [OF Inr] empty_pool [OF assms] have "pool = []" by simp
    with Inr rk have "e = EmbeddingError"
      by (simp add: ranked_sections_def score_relevance_empty_eval rej)
    then show ?thesis by simp
  qed
qed

theorem empty_pool_outcome_counterexample:
  "total_qualifying strict_backend empty_paths = 0 \<and>
   process_documents strict_backend empty_paths demo_persona demo_job demo_timestamp
     = Inl EmbeddingError \<and>
   process_documents strict_backend empty_paths demo_persona demo_job demo_timestamp
     \<noteq> Inl EmptyInputError"
proof -
  have "all_sections_loop strict_backend [] empty_paths = Inr []"
    using all_sections_loop_opened [OF strict_empty_readable, of "[]"]
      empty_pool [OF strict_empty_total] by simp
  then have "ranked_sections strict_backend empty_paths demo_persona demo_job = Inl EmbeddingError"
    by (simp add: ranked_sections_def score_relevance_empty_eval strict_rejects_empty)
  then have "process_documents strict_backend empty_paths demo_persona demo_job demo_timestamp
     = Inl EmbeddingError"
    by (simp add: process_documents_def)
  with strict_empty_total show ?thesis by simp
qed

theorem empty_pool_outcome_witness:
  "total_qualifying strict_backend empty_paths = 0 \<and>
   encode_texts strict_backend [] = None \<and>
   None \<notin> set (map (open_blocks strict_backend) empty_paths) \<and>
   process_documents strict_backend empty_paths demo_persona demo_job demo_timestamp
     = Inl EmbeddingError"
proof -
  note tot = strict_empty_total and rej = strict_rejects_empty and rd = strict_empty_readable
  from empty_pool_outcome [OF tot, of demo_persona demo_job demo_timestamp] rej rd
  have "process_documents strict_backend empty_paths demo_persona demo_job demo_timestamp
     = Inl EmbeddingError"
    by blast
  with tot rej rd show ?thesis by (intro conjI)
qed

text \<open>
  Claim C6. \<open>strip\<close> removes whitespace at both ends and nothing else; the texts of the
  candidates of a document are the trimmed texts of its blocks, in order, without those
  shorter than 30 code points; and every candidate behind an entry of a report is the
  trimmed text, of length at least 30, of a block of one of the input documents.
\<close>

theorem segmenter_trims_and_filters:
  "(\<exists>l t. b = l @ strip b @ t \<and> list_all is_space l \<and> list_all is_space t) \<and>
   (strip b \<noteq> [] \<longrightarrow> \<not> is_space (hd (strip b)) \<and> \<not> is_space (last (strip b))) \<and>
   (get_sections_from_pdf be path = Inr secs \<longrightarrow>
      (\<exists>doc. open_blocks be path = Some doc \<and>
         map c_text secs = filter (\<lambda>t. 30 \<le> length t) (map strip (concat doc)))) \<and>
   (process_documents be paths p j ts = Inr r \<longrightarrow>
      (\<exists>ranked. ranked_sections be paths p j = Inr ranked \<and>
         map refined_text (subsection_analysis r) = map (\<lambda>c. take 300 (c_text c)) ranked \<and>
         (\<forall>c\<in>set ranked. 30 \<le> length (c_text c) \<and>
            (\<exists>path doc b. path \<in> set paths \<and> open_blocks be path = Some doc \<and>
               b \<in> set (concat doc) \<and> c_text c = strip b)) \<and>
         (\<forall>e\<in>set (subsection_analysis r). 30 \<le> length (refined_text e))))"
proof (intro conjI impI)
  show "\<exists>l t. b = l @ strip b @ t \<and> list_all is_space l \<and> list_all is_space t"
    by (rule strip_decomposition)
next
  assume "strip b \<noteq> []"
  then have "\<not> is_space (hd (strip b)) \<and> \<not> is_space (last (strip b))" by (rule strip_ends)
  then show "\<not> is_space (hd (strip b))" and "\<not> is_space (last (strip b))" by simp_all
next
  assume "get_sections_from_pdf be path = Inr secs"
  then show "\<exists>doc. open_blocks be path = Some doc \<and>
         map c_text secs = filter (\<lambda>t. 30 \<le> length t) (map strip (concat doc))"
    by (rule get_sections_texts)
next
  assume run: "process_documents be paths p j ts = Inr r"
  from process_documents_Inr [OF run] obtain ranked where
    rk: "ranked_sections be paths p j = Inr ranked" and
    sa: "subsection_analysis r = map subsection_of ranked"
    by auto
  have src: "30 \<le> length (c_text c) \<and>
            (\<exists>path doc b. path \<in> set paths \<and> open_blocks be path = Some doc \<and>
               b \<in> set (concat doc) \<and> c_text c = strip b)"
    if c: "c \<in> set ranked" for c
  proof -
    from ranked_text_source [OF rk c] obtain path b where
      pa: "path \<in> set paths" and b: "b \<in> set (qualifying_blocks be path)" and t: "c_text c = strip b"
      by blast
    show ?thesis
    proof (cases "open_blocks be path")
      case None
      with b show ?thesis by (simp add: qualifying_blocks_def)
    next
      case (Some doc)
      with b have "b \<in> set (concat doc)" and "30 \<le> length (strip b)"
        by (simp_all add: qualifying_blocks_def)
      with pa Some t show ?thesis by auto
    qed
  qed
  have rt: "map refined_text (subsection_analysis r) = map (\<lambda>c. take 300 (c_text c)) ranked"
    by (simp add: sa subsection_of_def comp_def)
  have out: "30 \<le> length (refined_text e)" if "e \<in> set (subsection_analysis r)" for e
  proof -
    from that obtain c where c: "c \<in> set ranked" and e: "e = subsection_of c"
      by (auto simp: sa)
    from src [OF c] have "30 \<le> length (c_text c)" by simp
    then show ?thesis by (simp add: e subsection_of_def)
  qed
  from rk rt src out
  show "\<exists>ranked. ranked_sections be paths p j = Inr ranked \<and>
         map refined_text (subsection_analysis r) = map (\<lambda>c. take 300 (c_text c)) ranked \<and>
         (\<forall>c\<in>set ranked. 30 \<le> length (c_text c) \<and>
            (\<exists>path doc b. path \<in> set paths \<and> open_blocks be path = Some doc \<and>
               b \<in> set (concat doc) \<and> c_text c = strip b)) \<and>
         (\<forall>e\<in>set (subsection_analysis r). 30 \<le> length (refined_text e))"
    by blast
qed

theorem segmenter_trims_and_filters_witness:
  "strip (ustr ''  '' @ text_veg @ ustr ''  '') = text_veg \<and>
   get_sections_from_pdf demo_backend (ustr ''uploads/a.pdf'') = Inr (take 2 demo_pool) \<and>
   open_blocks demo_backend (ustr ''uploads/a.pdf'')
     = Some [[ustr ''  '' @ text_veg @ ustr ''  '', ustr ''Page 1''], [text_beans]] \<and>
   map c_text (take 2 demo_pool) = [text_veg, text_beans] \<and>
   process_documents demo_backend demo_paths demo_persona demo_job demo_timestamp = Inr demo_report \<and>
   list_all (\<lambda>e. 30 \<le> length (refined_text e)) (subsection_analysis demo_report)"
proof -
  note sec = demo_sections_a and run = demo_run
  note inst = segmenter_trims_and_filters [of "ustr ''  '' @ text_veg @ ustr ''  ''" demo_backend
      "ustr ''uploads/a.pdf''" "take 2 demo_pool" demo_paths demo_persona demo_job demo_timestamp
      demo_report]
  have st: "strip (ustr ''  '' @ text_veg @ ustr ''  '') = text_veg"
    by (simp add: strip_def is_space_def demo_text_defs)
  have ob: "open_blocks demo_backend (ustr ''uploads/a.pdf'')
     = Some [[ustr ''  '' @ text_veg @ ustr ''  '', ustr ''Page 1''], [text_beans]]"
    by (simp add: demo_backend_def demo_open_def)
  from inst sec obtain doc where "open_blocks demo_backend (ustr ''uploads/a.pdf'') = Some doc"
    and "map c_text (take 2 demo_pool) = filter (\<lambda>t. 30 \<le> length t) (map strip (concat doc))"
    by blast
  with ob have "map c_text (take 2 demo_pool)
      = filter (\<lambda>t. 30 \<le> length t)
          (map strip [ustr ''  '' @ text_veg @ ustr ''  '', ustr ''Page 1'', text_beans])"
    by simp
  then have tx: "map c_text (take 2 demo_pool) = [text_veg, text_beans]"
    by (simp add: demo_pool_def)
  from inst run have "\<forall>e\<in>set (subsection_analysis demo_report). 30 \<le> length (refined_text e)"
    by blast
  then have "list_all (\<lambda>e. 30 \<le> length (refined_text e)) (subsection_analysis demo_report)"
    by (simp only: list_all_iff)
  with st sec ob tx run show ?thesis by (intro conjI)
qed

text \<open>
  Claim C7. For the candidate \<open>ranked ! i\<close> behind entry \<open>i\<close> of a report,
  \<open>section_title\<close> is the first element of the candidate's text split at newlines (code
  point 10), that is the text up to its first newline, cut to 50 code points; it is the
  text cut to 50 code points when the text has no newline; \<open>refined_text\<close> is the text
  cut to 300 code points; so the title has at most 50 and the refined text at most 300
  code points.
\<close>

theorem title_and_refined_text:
  assumes "process_documents be paths p j ts = Inr r"
  shows "\<exists>ranked. ranked_sections be paths p j = Inr ranked \<and>
           length (extracted_sections r) = length ranked \<and>
           length (subsection_analysis r) = length ranked \<and>
           (\<forall>i<length ranked.
              (\<exists>first rest. py_split 10 (c_text (ranked ! i)) = first # rest \<and>
                 first = takeWhile (\<lambda>c. c \<noteq> 10) (c_text (ranked ! i)) \<and>
                 section_title (extracted_sections r ! i) = take 50 first) \<and>
              (10 \<notin> set (c_text (ranked ! i)) \<longrightarrow>
                 section_title (extracted_sections r ! i) = take 50 (c_text (ranked ! i))) \<and>
              refined_text (subsection_analysis r ! i) = take 300 (c_text (ranked ! i)) \<and>
              length (section_title (extracted_sections r ! i)) \<le> 50 \<and>
              length (refined_text (subsection_analysis r ! i)) \<le> 300)"
proof -
  from process_documents_Inr [OF assms] obtain ranked where
    rk: "ranked_sections be paths p j = Inr ranked" and
    es: "extracted_sections r = map (\<lambda>(i, s). entry_of i s) (enumerate 0 ranked)" and
    sa: "subsection_analysis r = map subsection_of ranked"
    by auto
  have per: "(\<exists>first rest. py_split 10 (c_text (ranked ! i)) = first # rest \<and>
                 first = takeWhile (\<lambda>c. c \<noteq> 10) (c_text (ranked ! i)) \<and>
                 section_title (extracted_sections r ! i) = take 50 first) \<and>
              (10 \<notin> set (c_text (ranked ! i)) \<longrightarrow>
                 section_title (extracted_sections r ! i) = take 50 (c_text (ranked ! i))) \<and>
              refined_text (subsection_analysis r ! i) = take 300 (c_text (ranked ! i)) \<and>
              length (section_title (extracted_sections r ! i)) \<le> 50 \<and>
              length (refined_text (subsection_analysis r ! i)) \<le> 300"
    if i: "i < length ranked" for i
  proof -
    let ?t = "c_text (ranked ! i)"
    have e: "extracted_sections r ! i = entry_of i (ranked ! i)"
      unfolding es using i by (rule nth_entries)
    have s: "subsection_analysis r ! i = subsection_of (ranked ! i)"
      unfolding sa using i by simp
    have "index0 (py_split 10 ?t) = Inr (takeWhile (\<lambda>c. c \<noteq> 10) ?t)"
      by (rule index0_py_split)
    then obtain rest where sp: "py_split 10 ?t = takeWhile (\<lambda>c. c \<noteq> 10) ?t # rest"
      by (auto simp: index0_def split: list.splits)
    have ti: "section_title (extracted_sections r ! i) = take 50 (takeWhile (\<lambda>c. c \<noteq> 10) ?t)"
      by (simp add: e entry_of_def)
    have nn: "10 \<notin> set ?t \<longrightarrow> section_title (extracted_sections r ! i) = take 50 ?t"
    proof
      assume "10 \<notin> set ?t"
      then have "takeWhile (\<lambda>c. c \<noteq> 10) ?t = ?t"
        by (auto simp: takeWhile_eq_all_conv)
      with ti show "section_title (extracted_sections r ! i) = take 50 ?t" by simp
    qed
    have l1: "length (section_title (extracted_sections r ! i)) \<le> 50" by (simp add: ti)
    have rt: "refined_text (subsection_analysis r ! i) = take 300 ?t"
      by (simp add: s subsection_of_def)
    have l2: "length (refined_text (subsection_analysis r ! i)) \<le> 300" by (simp add: rt)
    from sp ti have "\<exists>first rest. py_split 10 ?t = first # rest \<and>
                 first = takeWhile (\<lambda>c. c \<noteq> 10) ?t \<and>
                 section_title (extracted_sections r ! i) = take 50 first"
      by simp
    with nn rt l1 l2 show ?thesis by (intro conjI)
  qed
  have "length (extracted_sections r) = length ranked" by (simp add: es)
  moreover have "length (subsection_analysis r) = length ranked" by (simp add: sa)
  ultimately show ?thesis using rk per by blast
qed

theorem title_and_refined_text_witness:
  "process_documents demo_backend demo_paths demo_persona demo_job demo_timestamp = Inr demo_report \<and>
   ranked_sections demo_backend demo_paths demo_persona demo_job = Inr demo_ranked \<and>
   c_text (demo_ranked ! 1) = ustr ''Vegetarian menu'' @ [10] @ ustr ''beans and lentils every day'' \<and>
   section_title (extracted_sections demo_report ! 1) = ustr ''Vegetarian menu'' \<and>
   refined_text (subsection_analysis demo_report ! 1) = c_text (demo_ranked ! 1) \<and>
   section_title (extracted_sections demo_report ! 0) = c_text (demo_ranked ! 0) \<and>
   length (section_title (extracted_sections demo_report ! 1)) \<le> 50 \<and>
   length (refined_text (subsection_analysis demo_report ! 1)) \<le> 300"
proof -
  note run = demo_run and rk = demo_ranked_sections
  from title_and_refined_text [OF run] rk have al: "\<forall>i<length demo_ranked.
      (\<exists>first rest. py_split 10 (c_text (demo_ranked ! i)) = first # rest \<and>
         first = takeWhile (\<lambda>c. c \<noteq> 10) (c_text (demo_ranked ! i)) \<and>
         section_title (extracted_sections demo_report ! i) = take 50 first) \<and>
      (10 \<notin> set (c_text (demo_ranked ! i)) \<longrightarrow>
         section_title (extracted_sections demo_report ! i) = take 50 (c_text (demo_ranked ! i))) \<and>
      refined_text (subsection_analysis demo_report ! i) = take 300 (c_text (demo_ranked ! i)) \<and>
      length (section_title (extracted_sections demo_report ! i)) \<le> 50 \<and>
      length (refined_text (subsection_analysis demo_report ! i)) \<le> 300"
    by auto
  have len: "length demo_ranked = 4" by (simp add: demo_ranked_def)
  have t1: "c_text (demo_ranked ! 1) = ustr ''Vegetarian menu'' @ [10] @ ustr ''beans and lentils every day''"
    by (simp add: demo_ranked_def text_veg_def)
  have t0: "c_text (demo_ranked ! 0) = text_calcium" by (simp add: demo_ranked_def)
  have i1: "1 < length demo_ranked" and i0: "0 < length demo_ranked" by (simp_all add: len)
  from al [rule_format, OF i1] have 1: "section_title (extracted_sections demo_report ! 1)
        = take 50 (takeWhile (\<lambda>c. c \<noteq> 10) (c_text (demo_ranked ! 1)))"
    and 2: "refined_text (subsection_analysis demo_report ! 1) = take 300 (c_text (demo_ranked ! 1))"
    and 3: "length (section_title (extracted_sections demo_report ! 1)) \<le> 50"
    and 4: "length (refined_text (subsection_analysis demo_report ! 1)) \<le> 300"
    by auto
  from al [rule_format, OF i0] have "10 \<notin> set (c_text (demo_ranked ! 0)) \<longrightarrow>
         section_title (extracted_sections demo_report ! 0) = take 50 (c_text (demo_ranked ! 0))"
    by blast
  then have 5: "section_title (extracted_sections demo_report ! 0) = c_text (demo_ranked ! 0)"
    by (simp add: t0 text_calcium_def ustr_def)
  have "take 50 (takeWhile (\<lambda>c. c \<noteq> 10) (c_text (demo_ranked ! 1))) = ustr ''Vegetarian menu''"
    unfolding t1 by (simp add: ustr_def)
  with 1 have 1: "section_title (extracted_sections demo_report ! 1) = ustr ''Vegetarian menu''"
    by (simp only:)
  have "take 300 (c_text (demo_ranked ! 1)) = c_text (demo_ranked ! 1)"
    unfolding t1 by (simp add: ustr_def)
  with 2 have 2: "refined_text (subsection_analysis demo_report ! 1) = c_text (demo_ranked ! 1)"
    by (simp only:)
  from run rk t1 1 2 3 4 5 show ?thesis by (intro conjI)
qed

text \<open>
  Claim C8. In every report returned by \<open>process_documents\<close>, \<open>metadata.documents\<close> is the
  list of the basenames of the input paths, in the order given: one name for each path,
  whether or not the document has a qualifying block.
\<close>

theorem metadata_documents_basenames:
  assumes "process_documents be paths p j ts = Inr r"
  shows "documents (metadata r) = map basename paths \<and>
         length (documents (metadata r)) = length paths \<and>
         persona (metadata r) = p \<and> job (metadata r) = j \<and> timestamp (metadata r) = ts"
  using process_documents_Inr [OF assms] by auto

theorem metadata_documents_basenames_witness:
  "process_documents demo_backend demo_paths demo_persona demo_job demo_timestamp = Inr demo_report \<and>
   demo_paths = [ustr ''uploads/a.pdf'', ustr ''uploads/b.pdf'', ustr ''uploads/c.pdf''] \<and>
   documents (metadata demo_report) = [ustr ''a.pdf'', ustr ''b.pdf'', ustr ''c.pdf''] \<and>
   qualifying_blocks demo_backend (ustr ''uploads/b.pdf'') = []"
proof -
  note run = demo_run
  from metadata_documents_basenames [OF run]
  have "documents (metadata demo_report) = map basename demo_paths" by simp
  then have "documents (metadata demo_report) = [ustr ''a.pdf'', ustr ''b.pdf'', ustr ''c.pdf'']"
    by (simp add: demo_paths_def basename_def ustr_def)
  moreover have "qualifying_blocks demo_backend (ustr ''uploads/b.pdf'') = []"
    by (simp add: qualifying_blocks_def demo_backend_def demo_open_def ustr_def strip_def is_space_def)
  ultimately show ?thesis using run by (simp add: demo_paths_def)
qed

text \<open>
  Claim C10. At every position \<open>i\<close> of a report, \<open>section_title\<close> is a prefix of
  \<open>refined_text\<close>, and \<open>refined_text\<close> is a prefix of the text of the candidate
  \<open>ranked ! i\<close>.
\<close>

theorem title_prefix_of_refined_text:
  assumes "process_documents be paths p j ts = Inr r"
  shows "\<exists>ranked. ranked_sections be paths p j = Inr ranked \<and>
           length (extracted_sections r) = length ranked \<and>
           length (subsection_analysis r) = length ranked \<and>
           (\<forall>i<length ranked.
              prefix (section_title (extracted_sections r ! i))
                     (refined_text (subsection_analysis r ! i)) \<and>
              prefix (refined_text (subsection_analysis r ! i)) (c_text (ranked ! i)))"
proof -
  from process_documents_Inr [OF assms] obtain ranked where
    rk: "ranked_sections be paths p j = Inr ranked" and
    es: "extracted_sections r = map (\<lambda>(i, s). entry_of i s) (enumerate 0 ranked)" and
    sa: "subsection_analysis r = map subsection_of ranked"
    by auto
  have per: "prefix (section_title (extracted_sections r ! i))
                     (refined_text (subsection_analysis r ! i)) \<and>
             prefix (refined_text (subsection_analysis r ! i)) (c_text (ranked ! i))"
    if i: "i < length ranked" for i
  proof -
    let ?t = "c_text (ranked ! i)"
    have e: "section_title (extracted_sections r ! i) = take 50 (takeWhile (\<lambda>c. c \<noteq> 10) ?t)"
      unfolding es nth_entries [OF i] by (simp add: entry_of_def)
    have s: "refined_text (subsection_analysis r ! i) = take 300 ?t"
      unfolding sa using i by (simp add: subsection_of_def)
    have "prefix (takeWhile (\<lambda>c. c \<noteq> 10) ?t) ?t" by (rule takeWhile_is_prefix)
    then have "prefix (take 50 (takeWhile (\<lambda>c. c \<noteq> 10) ?t)) (take 50 ?t)"
      by (rule prefix_take_mono)
    moreover have "prefix (take 50 ?t) (take 300 ?t)"
      by (rule prefix_take_le) simp
    ultimately have "prefix (take 50 (takeWhile (\<lambda>c. c \<noteq> 10) ?t)) (take 300 ?t)"
      by (rule prefix_order.trans)
    moreover have "prefix (take 300 ?t) ?t" by (rule take_is_prefix)
    ultimately show ?thesis by (simp add: e s)
  qed
  have "length (extracted_sections r) = length ranked" by (simp add: es)
  moreover have "length (subsection_analysis r) = length ranked" by (simp add: sa)
  ultimately show ?thesis using rk per by blast
qed

theorem title_prefix_of_refined_text_witness:
  "process_documents demo_backend demo_paths demo_persona demo_job demo_timestamp = Inr demo_report \<and>
   section_title (extracted_sections demo_report ! 1) = ustr ''Vegetarian menu'' \<and>
   refined_text (subsection_analysis demo_report ! 1) = text_veg \<and>
   prefix (section_title (extracted_sections demo_report ! 1))
          (refined_text (subsection_analysis demo_report ! 1)) \<and>
   prefix (refined_text (subsection_analysis demo_report ! 1)) (c_text (demo_ranked ! 1))"
proof -
  note run = demo_run and rk = demo_ranked_sections
  from title_prefix_of_refined_text [OF run] rk have al: "\<forall>i<length demo_ranked.
      prefix (section_title (extracted_sections demo_report ! i))
             (refined_text (subsection_analysis demo_report ! i)) \<and>
      prefix (refined_text (subsection_analysis demo_report ! i)) (c_text (demo_ranked ! i))"
    by auto
  have "1 < length demo_ranked" by (simp add: demo_ranked_def)
  with al have "prefix (section_title (extracted_sections demo_report ! 1))
          (refined_text (subsection_analysis demo_report ! 1)) \<and>
     prefix (refined_text (subsection_analysis demo_report ! 1)) (c_text (demo_ranked ! 1))"
    by blast
  moreover have "section_title (extracted_sections demo_report ! 1) = ustr ''Vegetarian menu''"
    "refined_text (subsection_analysis demo_report ! 1) = text_veg"
    by (simp_all add: demo_report_def)
  ultimately show ?thesis using run by (intro conjI) simp_all
qed

end
